theory Spec2Isabelle
  imports Complex_Main
begin

section \<open>Numbers\<close>

text \<open>
  Python's floats are idealised as reals: \<open>pi\<close>, \<open>sin\<close> and true division are the
  mathematical ones. \<open>int(f)\<close> of a float truncates toward zero.
\<close>

definition py_int :: "real \<Rightarrow> int" where
  "py_int r = (if 0 \<le> r then \<lfloor>r\<rfloor> else \<lceil>r\<rceil>)"

section \<open>StrangePixel\<close>

text \<open>
  One pixel of the strip (class \<open>StrangePixel\<close>). The attribute \<open>x\<close> of the source is the
  field \<open>pixel_x\<close>. Every caller passes an integer intensity, so \<open>int(intensity)\<close> is the
  intensity itself.
\<close>

record StrangePixel =
  index :: nat
  pixel_x :: real
  intensity :: int
  red :: int
  green :: int
  blue :: int

definition new_pixel :: "nat \<Rightarrow> real \<Rightarrow> StrangePixel" where
  "new_pixel i x =
     \<lparr>index = i, pixel_x = x, intensity = 0, red = 0, green = 0, blue = 0\<rparr>"

definition set_pixel_intensity :: "int \<Rightarrow> bool \<Rightarrow> StrangePixel \<Rightarrow> StrangePixel" where
  "set_pixel_intensity v is_evil p =
     (if \<not> is_evil
      then p\<lparr>intensity := v, red := 0, green := v, blue := 0\<rparr>
      else p\<lparr>intensity := v, red := v, green := 0, blue := v\<rparr>)"

definition rgb :: "StrangePixel \<Rightarrow> int \<times> int \<times> int" where
  "rgb p = (red p, green p, blue p)"

section \<open>StateManager: buttons, interrupts and the debounce timer\<close>

text \<open>
  The three input lines. A \<open>Pin\<close>'s interrupt is either armed with its handler
  (\<open>irq(handler=h, trigger=Pin.IRQ_RISING)\<close>) or disarmed (\<open>irq(handler=None)\<close>): one boolean
  per line. The StateManager owns one \<open>Timer\<close> object; \<open>timer.init(mode=ONE_SHOT, callback=cb)\<close>
  (re)initialises that one timer, so the timer holds at most one pending callback, the one
  of the latest \<open>init\<close>. The callbacks are the three \<open>initialize_..._button\<close> methods, named
  here by the button they re-arm.
\<close>

datatype button = ChargeButton | GoodEvilButton | OffButton

datatype exn = OverflowError | IndexError | ZeroDivisionError

datatype console_line =
    InMainLoop bool bool bool
  | InHandlerCharge
  | InMoralButton
  | InAbortButton
  | RedGreenBlue int int int
  | EXCEPTION exn

record StateManager =
  charge_requested :: bool
  toggle_good_evil_requested :: bool
  abort_requested :: bool
  evil :: bool
  debounce_time :: nat
  charge_button_irq :: bool
  good_evil_button_irq :: bool
  off_button_irq :: bool
  timer :: "button option"

definition initialize_charge_button :: "StateManager \<Rightarrow> StateManager" where
  "initialize_charge_button sm = sm\<lparr>charge_button_irq := True\<rparr>"

definition initialize_good_evil_button :: "StateManager \<Rightarrow> StateManager" where
  "initialize_good_evil_button sm = sm\<lparr>good_evil_button_irq := True\<rparr>"

definition initialize_off_button :: "StateManager \<Rightarrow> StateManager" where
  "initialize_off_button sm = sm\<lparr>off_button_irq := True\<rparr>"

text \<open>Each handler returns the line it prints and the new state.\<close>

definition handler_charge :: "StateManager \<Rightarrow> console_line \<times> StateManager" where
  "handler_charge sm =
     (InHandlerCharge,
      sm\<lparr>charge_button_irq := False, charge_requested := True,
         timer := Some ChargeButton\<rparr>)"

definition handler_trigger_good_evil :: "StateManager \<Rightarrow> console_line \<times> StateManager" where
  "handler_trigger_good_evil sm =
     (InMoralButton,
      sm\<lparr>good_evil_button_irq := False, toggle_good_evil_requested := True,
         timer := Some GoodEvilButton\<rparr>)"

definition handler_should_abort :: "StateManager \<Rightarrow> console_line \<times> StateManager" where
  "handler_should_abort sm =
     (InAbortButton,
      sm\<lparr>off_button_irq := False, abort_requested := True,
         timer := Some OffButton\<rparr>)"

definition new_state_manager :: StateManager where
  "new_state_manager =
     initialize_off_button (initialize_good_evil_button (initialize_charge_button
       \<lparr>charge_requested = False, toggle_good_evil_requested = False,
        abort_requested = False, evil = False, debounce_time = 200,
        charge_button_irq = False, good_evil_button_irq = False, off_button_irq = False,
        timer = None\<rparr>))"

text \<open>
  What the hardware does to a StateManager: a rising edge on a line runs the line's handler
  when the line is armed and is lost otherwise; the expiry of the one-shot timer runs the
  pending callback, if there is one, and leaves the timer inactive.
\<close>

datatype hw_event = RisingEdge button | TimerExpiry

fun timer_callback :: "button \<Rightarrow> StateManager \<Rightarrow> StateManager" where
  "timer_callback ChargeButton sm = initialize_charge_button sm"
| "timer_callback GoodEvilButton sm = initialize_good_evil_button sm"
| "timer_callback OffButton sm = initialize_off_button sm"

fun on_event :: "hw_event \<Rightarrow> StateManager \<Rightarrow> console_line list \<times> StateManager" where
  "on_event (RisingEdge ChargeButton) sm =
     (if charge_button_irq sm
      then (case handler_charge sm of (l, sm') \<Rightarrow> ([l], sm')) else ([], sm))"
| "on_event (RisingEdge GoodEvilButton) sm =
     (if good_evil_button_irq sm
      then (case handler_trigger_good_evil sm of (l, sm') \<Rightarrow> ([l], sm')) else ([], sm))"
| "on_event (RisingEdge OffButton) sm =
     (if off_button_irq sm
      then (case handler_should_abort sm of (l, sm') \<Rightarrow> ([l], sm')) else ([], sm))"
| "on_event TimerExpiry sm =
     (case timer sm of
        None \<Rightarrow> ([], sm)
      | Some b \<Rightarrow> ([], timer_callback b (sm\<lparr>timer := None\<rparr>)))"

fun on_events :: "hw_event list \<Rightarrow> StateManager \<Rightarrow> console_line list \<times> StateManager" where
  "on_events [] sm = ([], sm)"
| "on_events (e # es) sm =
     (case on_event e sm of (ls, sm') \<Rightarrow>
        (case on_events es sm' of (ls', sm'') \<Rightarrow> (ls @ ls', sm'')))"

section \<open>DoctorStrangeCostume\<close>

text \<open>
  The costume object, with the world it acts on: \<open>strip\<close> is the NeoPixel buffer,
  \<open>written\<close> the frames flushed by \<open>strip.write()\<close> (oldest first), \<open>console\<close> the printed
  lines, and \<open>irqs\<close> the hardware events still to come, one group per point at which the
  main program lets them in (see \<open>deliver_irqs\<close>).
\<close>

record DoctorStrangeCostume =
  num_leds :: nat
  strip :: "(int \<times> int \<times> int) list"
  num_charging_waves :: nat
  lights_per_period :: real
  pixels :: "StrangePixel list"
  state_manager :: StateManager
  written :: "(int \<times> int \<times> int) list list"
  console :: "console_line list"
  irqs :: "hw_event list list"

definition initial_offset :: real where
  "initial_offset = - pi / 2"

definition new_costume :: "hw_event list list \<Rightarrow> DoctorStrangeCostume" where
  "new_costume evs =
     \<lparr>num_leds = 144,
      strip = replicate 144 (0, 0, 0),
      num_charging_waves = 3,
      lights_per_period = 144 / 3,
      pixels = map (\<lambda>i. new_pixel i (real i * (2 * pi / (144 / 3)) + initial_offset)) [0..<144],
      state_manager = new_state_manager,
      written = [],
      console = [],
      irqs = evs\<rparr>"

text \<open>
  Interrupts run between the steps of the main program and touch only the StateManager
  and the console. The model lets the events of the next group in at fixed points: before
  the main loop reads \<open>charge_requested\<close>, on entry to \<open>refresh_and_check_state\<close>, inside it
  before \<open>charge_requested\<close> is read, and before the final clearing of \<open>charge_requested\<close>.
\<close>

definition deliver_irqs :: "DoctorStrangeCostume \<Rightarrow> DoctorStrangeCostume" where
  "deliver_irqs c =
     (case irqs c of
        [] \<Rightarrow> c
      | evs # rest \<Rightarrow>
          (case on_events evs (state_manager c) of (ls, sm) \<Rightarrow>
             c\<lparr>state_manager := sm, console := console c @ ls, irqs := rest\<rparr>))"

subsection \<open>The strip and \<open>update\<close>\<close>

text \<open>
  Modelled from the spec: \<open>NeoPixel.__setitem__\<close> and \<open>NeoPixel.write\<close> are the display
  driver, which is not part of the repository. By section 4.4 of the spec the driver takes
  one RGB triple per pixel, indexed like the pixel array, with every channel an integer in
  0..255, and does not clamp a value out of range; section 7 has such a value signalled as a
  fault. So the store of a triple with a channel outside 0..255 fails, and the model gives the
  failure the one exception type that \<open>update\<close> has a handler for, OverflowError. The store
  at an index outside the buffer raises IndexError, and \<open>write\<close> flushes the buffer as one
  frame. A well-formed costume presents no channel out of range, and no property below
  depends on what the store of one does.
\<close>

definition channel_ok :: "int \<Rightarrow> bool" where
  "channel_ok v = (0 \<le> v \<and> v \<le> 255)"

definition strip_setitem ::
  "nat \<Rightarrow> int \<times> int \<times> int \<Rightarrow> DoctorStrangeCostume
     \<Rightarrow> exn \<times> DoctorStrangeCostume + DoctorStrangeCostume" where
  "strip_setitem i t c =
     (case t of (r, g, b) \<Rightarrow>
        if \<not> i < length (strip c) then Inl (IndexError, c)
        else if channel_ok r \<and> channel_ok g \<and> channel_ok b
        then Inr (c\<lparr>strip := (strip c)[i := (r, g, b)]\<rparr>)
        else Inl (OverflowError, c))"

definition strip_write :: "DoctorStrangeCostume \<Rightarrow> DoctorStrangeCostume" where
  "strip_write c = c\<lparr>written := written c @ [strip c]\<rparr>"

definition print_line :: "console_line \<Rightarrow> DoctorStrangeCostume \<Rightarrow> DoctorStrangeCostume" where
  "print_line l c = c\<lparr>console := console c @ [l]\<rparr>"

fun update_pixels ::
  "nat \<Rightarrow> StrangePixel list \<Rightarrow> DoctorStrangeCostume
     \<Rightarrow> exn \<times> DoctorStrangeCostume + DoctorStrangeCostume" where
  "update_pixels i [] c = Inr c"
| "update_pixels i (p # ps) c =
     (case strip_setitem i (red p, green p, blue p) c of
        Inl (e, c') \<Rightarrow>
          (if e = OverflowError
           then Inl (e, print_line (RedGreenBlue (red p) (green p) (blue p)) c')
           else Inl (e, c'))
      | Inr c' \<Rightarrow> update_pixels (Suc i) ps c')"

definition update ::
  "DoctorStrangeCostume \<Rightarrow> exn \<times> DoctorStrangeCostume + DoctorStrangeCostume" where
  "update c =
     (case update_pixels 0 (pixels c) c of
        Inl e \<Rightarrow> Inl e
      | Inr c' \<Rightarrow> Inr (strip_write c'))"

subsection \<open>Setting pixels\<close>

text \<open>
  A \<open>for\<close> loop whose body may raise: the first exception ends the loop with the state
  reached so far.
\<close>

fun for_each ::
  "'a list \<Rightarrow> ('a \<Rightarrow> DoctorStrangeCostume \<Rightarrow> exn \<times> DoctorStrangeCostume + DoctorStrangeCostume)
     \<Rightarrow> DoctorStrangeCostume \<Rightarrow> exn \<times> DoctorStrangeCostume + DoctorStrangeCostume" where
  "for_each [] body c = Inr c"
| "for_each (a # as) body c =
     (case body a c of
        Inl e \<Rightarrow> Inl e
      | Inr c' \<Rightarrow> for_each as body c')"

text \<open>\<open>self.pixels[i].set_pixel_intensity(v, self.state_manager.evil)\<close>, for \<open>i \<ge> 0\<close>.\<close>

definition pixel_set ::
  "nat \<Rightarrow> int \<Rightarrow> DoctorStrangeCostume \<Rightarrow> exn \<times> DoctorStrangeCostume + DoctorStrangeCostume" where
  "pixel_set i v c =
     (if i < length (pixels c)
      then Inr (c\<lparr>pixels :=
                   (pixels c)[i := set_pixel_intensity v (evil (state_manager c)) (pixels c ! i)]\<rparr>)
      else Inl (IndexError, c))"

text \<open>The same for any integer index: a negative index counts from the end.\<close>

definition pixel_set_int ::
  "int \<Rightarrow> int \<Rightarrow> DoctorStrangeCostume \<Rightarrow> exn \<times> DoctorStrangeCostume + DoctorStrangeCostume" where
  "pixel_set_int i v c =
     (if 0 \<le> i then pixel_set (nat i) v c
      else if - int (length (pixels c)) \<le> i then pixel_set (nat (int (length (pixels c)) + i)) v c
      else Inl (IndexError, c))"

definition turn_off ::
  "DoctorStrangeCostume \<Rightarrow> exn \<times> DoctorStrangeCostume + DoctorStrangeCostume" where
  "turn_off c =
     (case for_each [0..<num_leds c] (\<lambda>i. pixel_set i 0) c of
        Inl e \<Rightarrow> Inl e
      | Inr c1 \<Rightarrow>
          (case update c1 of
             Inl e \<Rightarrow> Inl e
           | Inr c2 \<Rightarrow>
               Inr (c2\<lparr>state_manager := (state_manager c2)\<lparr>abort_requested := False\<rparr>\<rparr>)))"

subsection \<open>\<open>refresh_and_check_state\<close>\<close>

definition toggle_good_evil ::
  "DoctorStrangeCostume \<Rightarrow> exn \<times> DoctorStrangeCostume + DoctorStrangeCostume" where
  "toggle_good_evil c =
     (let c1 = c\<lparr>state_manager := (state_manager c)\<lparr>evil := \<not> evil (state_manager c)\<rparr>\<rparr>;
          c2 = c1\<lparr>pixels :=
                    map (\<lambda>p. set_pixel_intensity (intensity p) (evil (state_manager c1)) p)
                      (pixels c1)\<rparr>
      in case update c2 of
           Inl e \<Rightarrow> Inl e
         | Inr c3 \<Rightarrow>
             Inr (c3\<lparr>state_manager :=
                       (state_manager c3)\<lparr>toggle_good_evil_requested := False\<rparr>\<rparr>))"

definition dismiss_abort :: "DoctorStrangeCostume \<Rightarrow> DoctorStrangeCostume" where
  "dismiss_abort c =
     (if charge_requested (state_manager c)
      then c\<lparr>state_manager := (state_manager c)\<lparr>abort_requested := False\<rparr>\<rparr>
      else c)"

definition refresh_and_check_state ::
  "DoctorStrangeCostume \<Rightarrow> exn \<times> DoctorStrangeCostume + bool \<times> DoctorStrangeCostume" where
  "refresh_and_check_state c0 =
     (let c = deliver_irqs c0 in
      if abort_requested (state_manager c) then
        (case turn_off c of
           Inl e \<Rightarrow> Inl e
         | Inr c1 \<Rightarrow>
             Inr (False,
                  c1\<lparr>state_manager :=
                       (state_manager c1)\<lparr>abort_requested := False,
                                           charge_requested := False\<rparr>\<rparr>))
      else
        (case (if toggle_good_evil_requested (state_manager c)
               then toggle_good_evil c else Inr c) of
           Inl e \<Rightarrow> Inl e
         | Inr c1 \<Rightarrow> Inr (True, dismiss_abort (deliver_irqs c1))))"

subsection \<open>\<open>run_main_loop\<close>: the constants of a charge cycle\<close>

definition num_times_to_charge :: nat where
  "num_times_to_charge = 2"

definition target_value :: int where
  "target_value = 15"

definition num_steps :: nat where
  "num_steps = 20"

definition max_val :: int where
  "max_val = 255"

definition amplitude :: real where
  "amplitude = real_of_int max_val / 2"

subsection \<open>Charging up the arm\<close>

text \<open>
  The body of the inner loop \<open>for i in range(self.num_leds - 1, 0, -1)\<close>. The range never
  yields 0; there \<open>self.pixels[i - 1]\<close> would be Python's last element.
\<close>

definition shift_pixel ::
  "nat \<Rightarrow> DoctorStrangeCostume \<Rightarrow> exn \<times> DoctorStrangeCostume + DoctorStrangeCostume" where
  "shift_pixel i c =
     (if i < length (pixels c)
      then pixel_set i (intensity (if i = 0 then last (pixels c) else pixels c ! (i - 1))) c
      else Inl (IndexError, c))"

definition this_shift :: "nat \<Rightarrow> DoctorStrangeCostume \<Rightarrow> real" where
  "this_shift iteration c =
     real iteration * 2 * pi * real (num_charging_waves c) / real (num_leds c)"

definition charge_frame ::
  "nat \<Rightarrow> DoctorStrangeCostume \<Rightarrow> exn \<times> DoctorStrangeCostume + DoctorStrangeCostume" where
  "charge_frame iteration c =
     (case for_each (rev [1..<num_leds c]) shift_pixel c of
        Inl e \<Rightarrow> Inl e
      | Inr c1 \<Rightarrow>
          if num_leds c1 = 0 then Inl (ZeroDivisionError, c1)
          else if pixels c1 = [] then Inl (IndexError, c1)
          else
            (case pixel_set 0
                    (py_int (amplitude
                       + amplitude * sin (pixel_x (pixels c1 ! 0) - this_shift iteration c1))) c1 of
               Inl e \<Rightarrow> Inl e
             | Inr c2 \<Rightarrow> update c2))"

text \<open>
  The loop \<open>for iteration in range(0, self.num_leds * num_times_to_charge)\<close> over the
  iterations still to run; the boolean is \<open>should_restart_main_loop\<close>.
\<close>

fun charge_up ::
  "nat list \<Rightarrow> DoctorStrangeCostume \<Rightarrow> exn \<times> DoctorStrangeCostume + bool \<times> DoctorStrangeCostume" where
  "charge_up [] c = Inr (False, c)"
| "charge_up (iteration # rest) c =
     (case refresh_and_check_state c of
        Inl e \<Rightarrow> Inl e
      | Inr (ok, c1) \<Rightarrow>
          if \<not> ok then Inr (True, c1)
          else
            (case charge_frame iteration c1 of
               Inl e \<Rightarrow> Inl e
             | Inr c2 \<Rightarrow> charge_up rest c2))"

subsection \<open>Fading down to the target value\<close>

fun step_sizes_from ::
  "nat list \<Rightarrow> real list \<Rightarrow> DoctorStrangeCostume \<Rightarrow> exn \<times> DoctorStrangeCostume + real list" where
  "step_sizes_from [] acc c = Inr acc"
| "step_sizes_from (i # rest) acc c =
     (if i < length (pixels c)
      then step_sizes_from rest
             (acc @ [real_of_int (target_value - intensity (pixels c ! i)) / real num_steps]) c
      else Inl (IndexError, c))"

definition fade_pixel ::
  "real list \<Rightarrow> nat \<Rightarrow> DoctorStrangeCostume \<Rightarrow> exn \<times> DoctorStrangeCostume + DoctorStrangeCostume" where
  "fade_pixel step_sizes i c =
     (if i < length (pixels c) \<and> i < length step_sizes
      then
        (let new_intensity = py_int (real_of_int (intensity (pixels c ! i)) + step_sizes ! i)
         in pixel_set i (if new_intensity < 0 then 0 else new_intensity) c)
      else Inl (IndexError, c))"

definition fade_frame ::
  "real list \<Rightarrow> DoctorStrangeCostume \<Rightarrow> exn \<times> DoctorStrangeCostume + DoctorStrangeCostume" where
  "fade_frame step_sizes c =
     (case for_each [0..<num_leds c] (fade_pixel step_sizes) c of
        Inl e \<Rightarrow> Inl e
      | Inr c1 \<Rightarrow> update c1)"

fun fade ::
  "nat list \<Rightarrow> real list \<Rightarrow> DoctorStrangeCostume
     \<Rightarrow> exn \<times> DoctorStrangeCostume + bool \<times> DoctorStrangeCostume" where
  "fade [] step_sizes c = Inr (False, c)"
| "fade (step # rest) step_sizes c =
     (case refresh_and_check_state c of
        Inl e \<Rightarrow> Inl e
      | Inr (ok, c1) \<Rightarrow>
          if \<not> ok then Inr (True, c1)
          else
            (case fade_frame step_sizes c1 of
               Inl e \<Rightarrow> Inl e
             | Inr c2 \<Rightarrow> fade rest step_sizes c2))"

definition final_pass ::
  "DoctorStrangeCostume \<Rightarrow> exn \<times> DoctorStrangeCostume + DoctorStrangeCostume" where
  "final_pass c =
     (case for_each [0..<num_leds c] (\<lambda>i. pixel_set i target_value) c of
        Inl e \<Rightarrow> Inl e
      | Inr c1 \<Rightarrow> update c1)"

subsection \<open>Resonating the last period\<close>

definition starting_point_for_resonating :: "DoctorStrangeCostume \<Rightarrow> int" where
  "starting_point_for_resonating c =
     (let periods_ignored = int (num_charging_waves c) - 1;
          starting_led_of_last_period = lights_per_period c * real_of_int periods_ignored + 1
      in py_int starting_led_of_last_period)"

definition resonating_value_modifiers :: "int list" where
  "resonating_value_modifiers =
     [0, 1, 2, 3, 4, 5, 6, 7, 8, 9, 10, 11, 12, 13, 14, 15, 16, 17, 18, 19, 20,
      19, 18, 17, 16, 15, 14, 13, 12, 11, 10, 9, 8, 7, 6, 5, 4, 3, 2, 1]"

definition resonating_values :: "int list" where
  "resonating_values = map (\<lambda>x. target_value + x) resonating_value_modifiers"

definition resonate_frame ::
  "int \<Rightarrow> int \<Rightarrow> DoctorStrangeCostume \<Rightarrow> exn \<times> DoctorStrangeCostume + DoctorStrangeCostume" where
  "resonate_frame start val c =
     (case for_each [start..int (num_leds c) - 1] (\<lambda>i. pixel_set_int i val) c of
        Inl e \<Rightarrow> Inl e
      | Inr c1 \<Rightarrow> update c1)"

text \<open>The loop \<open>for _ in range(5)\<close> over the repetitions still to run.\<close>

fun resonate ::
  "nat list \<Rightarrow> int \<Rightarrow> int list \<Rightarrow> DoctorStrangeCostume
     \<Rightarrow> exn \<times> DoctorStrangeCostume + DoctorStrangeCostume" where
  "resonate [] start vals c = Inr c"
| "resonate (_ # rest) start vals c =
     (case refresh_and_check_state c of
        Inl e \<Rightarrow> Inl e
      | Inr (ok, c1) \<Rightarrow>
          if \<not> ok then Inr c1
          else
            (case for_each vals (resonate_frame start) c1 of
               Inl e \<Rightarrow> Inl e
             | Inr c2 \<Rightarrow> resonate rest start vals c2))"

subsection \<open>One charge cycle and the main loop\<close>

definition clear_charge_requested :: "DoctorStrangeCostume \<Rightarrow> DoctorStrangeCostume" where
  "clear_charge_requested c =
     c\<lparr>state_manager := (state_manager c)\<lparr>charge_requested := False\<rparr>\<rparr>"

text \<open>The body of the \<open>try\<close> statement; \<open>Inl\<close> is an exception that reaches its handler.\<close>

definition charge_cycle ::
  "DoctorStrangeCostume \<Rightarrow> exn \<times> DoctorStrangeCostume + DoctorStrangeCostume" where
  "charge_cycle c =
     (case charge_up [0..<num_leds c * num_times_to_charge] c of
        Inl e \<Rightarrow> Inl e
      | Inr (should_restart_main_loop, c1) \<Rightarrow>
          if should_restart_main_loop then Inr c1
          else
            (case step_sizes_from [0..<num_leds c1] [] c1 of
               Inl e \<Rightarrow> Inl e
             | Inr step_sizes \<Rightarrow>
                 (case fade [0..<num_steps] step_sizes c1 of
                    Inl e \<Rightarrow> Inl e
                  | Inr (should_restart_main_loop, c2) \<Rightarrow>
                      if should_restart_main_loop then Inr c2
                      else
                        (case final_pass c2 of
                           Inl e \<Rightarrow> Inl e
                         | Inr c3 \<Rightarrow>
                             (case resonate [0..<5] (starting_point_for_resonating c3)
                                     resonating_values c3 of
                                Inl e \<Rightarrow> Inl e
                              | Inr c4 \<Rightarrow> Inr (clear_charge_requested (deliver_irqs c4)))))))"

text \<open>
  One iteration of \<open>while True\<close>. \<open>sleep(0.2)\<close> changes nothing but the time; an exception of
  the cycle is printed and the loop goes on.
\<close>

definition main_loop_iteration :: "DoctorStrangeCostume \<Rightarrow> DoctorStrangeCostume" where
  "main_loop_iteration c0 =
     (let c = deliver_irqs c0;
          c = print_line (InMainLoop (charge_requested (state_manager c))
                            (toggle_good_evil_requested (state_manager c))
                            (abort_requested (state_manager c))) c
      in if charge_requested (state_manager c)
         then
           (case charge_cycle (clear_charge_requested c) of
              Inl (e, c') \<Rightarrow> print_line (EXCEPTION e) c'
            | Inr c' \<Rightarrow> c')
         else c)"

text \<open>The first \<open>n\<close> iterations of the endless main loop.\<close>

fun run_main_loop :: "nat \<Rightarrow> DoctorStrangeCostume \<Rightarrow> DoctorStrangeCostume" where
  "run_main_loop 0 c = c"
| "run_main_loop (Suc n) c = run_main_loop n (main_loop_iteration c)"

section \<open>Notions used in the statements\<close>

subsection \<open>Intensities, frames and well-formed costumes\<close>

text \<open>
  The channels a mode derives from an intensity, the list of the pixels' intensities, and
  the frame a list of intensities makes in a mode. \<open>show_frame vs\<close> is the effect every
  frame of the program turns out to have on a well-formed costume: the pixels take the
  intensities \<open>vs\<close>, and their colours are stored in the strip and flushed.
\<close>

definition channels_ok :: "StrangePixel \<Rightarrow> bool" where
  "channels_ok p = (channel_ok (red p) \<and> channel_ok (green p) \<and> channel_ok (blue p))"

definition derive_channels :: "int \<Rightarrow> bool \<Rightarrow> int \<times> int \<times> int" where
  "derive_channels v e = (if e then (v, 0, v) else (0, v, 0))"

definition intensities :: "DoctorStrangeCostume \<Rightarrow> int list" where
  "intensities c = map intensity (pixels c)"

definition frame_of :: "bool \<Rightarrow> int list \<Rightarrow> (int \<times> int \<times> int) list" where
  "frame_of e vs = map (\<lambda>v. derive_channels v e) vs"

definition show_frame :: "int list \<Rightarrow> DoctorStrangeCostume \<Rightarrow> DoctorStrangeCostume" where
  "show_frame vs c =
     c\<lparr>pixels := map2 (\<lambda>v p. set_pixel_intensity v (evil (state_manager c)) p) vs (pixels c),
       strip := frame_of (evil (state_manager c)) vs,
       written := written c @ [frame_of (evil (state_manager c)) vs]\<rparr>"

text \<open>
  A costume is well formed when it has \<open>num_leds\<close> pixels and as long a strip, its
  resonating pixels start at a non-negative index, and every pixel has an intensity in
  0..255 with the channels its mode derives from it. The constructed costume is well
  formed, and every frame keeps a costume so.
\<close>

definition sized :: "DoctorStrangeCostume \<Rightarrow> bool" where
  "sized c = (length (pixels c) = num_leds c \<and> length (strip c) = num_leds c)"

definition painted :: "bool \<Rightarrow> StrangePixel \<Rightarrow> bool" where
  "painted e p = (0 \<le> intensity p \<and> intensity p \<le> 255 \<and> rgb p = derive_channels (intensity p) e)"

definition costume_ok :: "DoctorStrangeCostume \<Rightarrow> bool" where
  "costume_ok c =
     (sized c \<and> 0 \<le> starting_point_for_resonating c \<and>
      list_all (painted (evil (state_manager c))) (pixels c))"

definition in_range :: "int list \<Rightarrow> bool" where
  "in_range vs = list_all (\<lambda>v. 0 \<le> v \<and> v \<le> 255) vs"

text \<open>
  The intensities the three kinds of frames compute: the new intensity of a fading pixel
  (\<open>int(intensity + step)\<close>, or 0 when that is negative), the intensity written to
  pixel 0 while charging, and the intensities of a resonating frame.
\<close>

definition fade_value :: "real \<Rightarrow> int \<Rightarrow> int" where
  "fade_value s v =
     (let new_intensity = py_int (real_of_int v + s)
      in if new_intensity < 0 then 0 else new_intensity)"

definition wave_value :: "nat \<Rightarrow> DoctorStrangeCostume \<Rightarrow> int" where
  "wave_value iteration c =
     py_int (amplitude + amplitude * sin (pixel_x (pixels c ! 0) - this_shift iteration c))"

definition resonate_intensities :: "int \<Rightarrow> int \<Rightarrow> int list \<Rightarrow> int list" where
  "resonate_intensities start val vs =
     take (nat start) vs @ replicate (length vs - nat start) val"

subsection \<open>What a poll does\<close>

text \<open>
  The costume after an abort request was taken (\<open>turned_off\<close>) and after a toggle request
  was taken (\<open>toggled\<close>); \<open>display\<close> is the part of a costume that the strip shows and
  that the pixel arithmetic reads.
\<close>

definition flip_mode :: "DoctorStrangeCostume \<Rightarrow> DoctorStrangeCostume" where
  "flip_mode c = c\<lparr>state_manager := (state_manager c)\<lparr>evil := \<not> evil (state_manager c)\<rparr>\<rparr>"

definition turned_off :: "DoctorStrangeCostume \<Rightarrow> DoctorStrangeCostume" where
  "turned_off d =
     (show_frame (replicate (num_leds d) 0) d)
       \<lparr>state_manager := (state_manager d)\<lparr>abort_requested := False,
                                           charge_requested := False\<rparr>\<rparr>"

definition toggled :: "DoctorStrangeCostume \<Rightarrow> DoctorStrangeCostume" where
  "toggled d =
     (show_frame (intensities d) (flip_mode d))
       \<lparr>state_manager := (state_manager (flip_mode d))\<lparr>toggle_good_evil_requested := False\<rparr>\<rparr>"

definition display ::
  "DoctorStrangeCostume \<Rightarrow>
     nat \<times> (int \<times> int \<times> int) list \<times> nat \<times> real \<times> StrangePixel list \<times> bool
       \<times> (int \<times> int \<times> int) list list" where
  "display c =
     (num_leds c, strip c, num_charging_waves c, lights_per_period c, pixels c,
      evil (state_manager c), written c)"

subsection \<open>Runs without abort or toggle requests\<close>

text \<open>
  A costume is calm when neither request is set and none of the hardware events still to
  come is a rising edge on the abort or the moral line. In a calm run the loops of the
  three phases do what \<open>charge_frames\<close>, \<open>fade_frames\<close> and \<open>resonate_frames\<close> do to the
  display.
\<close>

definition harmless :: "hw_event \<Rightarrow> bool" where
  "harmless e = (e \<noteq> RisingEdge OffButton \<and> e \<noteq> RisingEdge GoodEvilButton)"

definition calm :: "DoctorStrangeCostume \<Rightarrow> bool" where
  "calm c =
     (\<not> abort_requested (state_manager c) \<and>
      \<not> toggle_good_evil_requested (state_manager c) \<and>
      list_all (list_all harmless) (irqs c))"

fun charge_frames :: "nat list \<Rightarrow> DoctorStrangeCostume \<Rightarrow> DoctorStrangeCostume" where
  "charge_frames [] c = c"
| "charge_frames (k # ks) c =
     charge_frames ks (show_frame (wave_value k c # butlast (intensities c)) c)"

fun fade_frames :: "nat list \<Rightarrow> real list \<Rightarrow> DoctorStrangeCostume \<Rightarrow> DoctorStrangeCostume" where
  "fade_frames [] step_sizes c = c"
| "fade_frames (k # ks) step_sizes c =
     fade_frames ks step_sizes (show_frame (map2 fade_value step_sizes (intensities c)) c)"

fun resonate_pass :: "int \<Rightarrow> int list \<Rightarrow> DoctorStrangeCostume \<Rightarrow> DoctorStrangeCostume" where
  "resonate_pass start [] c = c"
| "resonate_pass start (v # vs) c =
     resonate_pass start vs (show_frame (resonate_intensities start v (intensities c)) c)"

fun resonate_frames ::
  "nat list \<Rightarrow> int \<Rightarrow> int list \<Rightarrow> DoctorStrangeCostume \<Rightarrow> DoctorStrangeCostume" where
  "resonate_frames [] start vals c = c"
| "resonate_frames (k # ks) start vals c =
     resonate_frames ks start vals (resonate_pass start vals c)"

text \<open>
  The step size of the fade for a pixel of intensity \<open>v\<close>; for intensities in 0..255 it is
  below 1, which keeps the fading intensities in range.
\<close>

definition small_steps :: "real list \<Rightarrow> bool" where
  "small_steps step_sizes = list_all (\<lambda>s. s < 1) step_sizes"

definition step_size :: "int \<Rightarrow> real" where
  "step_size v = real_of_int (target_value - v) / real num_steps"

subsection \<open>What the intensities depend on\<close>

text \<open>
  \<open>numeric\<close> forgets the mode, the toggle request, the colour channels, the strip, the
  flushed frames and the console, and keeps everything else: sizes, phases, intensities,
  the other flags, the interrupt arming, the timer and the events to come.
\<close>

definition sm_numeric :: "StateManager \<Rightarrow> StateManager" where
  "sm_numeric sm = sm\<lparr>evil := False, toggle_good_evil_requested := False\<rparr>"

definition numeric ::
  "DoctorStrangeCostume \<Rightarrow>
     nat \<times> nat \<times> real \<times> (nat \<times> real \<times> int) list \<times> StateManager \<times> hw_event list list" where
  "numeric c =
     (num_leds c, num_charging_waves c, lights_per_period c,
      map (\<lambda>p. (index p, pixel_x p, intensity p)) (pixels c),
      sm_numeric (state_manager c), irqs c)"

definition alike :: "DoctorStrangeCostume \<Rightarrow> DoctorStrangeCostume \<Rightarrow> bool" where
  "alike a b = (costume_ok a \<and> costume_ok b \<and> numeric a = numeric b)"

subsection \<open>A cycle up to the poll that takes an abort request\<close>

text \<open>
  A costume is quiet for the next \<open>m\<close> lettings-in of interrupts when neither request is set
  and none of the first \<open>m\<close> groups of events to come holds a rising edge on the abort or the
  moral line. A poll lets interrupts in twice, so the abort button is pressed for poll \<open>n\<close>
  of a cycle (polls counted from 0 through the whole cycle) when the costume is quiet for
  \<open>2 \<times> n\<close> lettings-in, the abort line is armed, and group \<open>2 \<times> n\<close> is a press of the abort
  button.
\<close>

definition quiet :: "nat \<Rightarrow> DoctorStrangeCostume \<Rightarrow> bool" where
  "quiet m c =
     (\<not> abort_requested (state_manager c) \<and>
      \<not> toggle_good_evil_requested (state_manager c) \<and>
      list_all (list_all harmless) (take m (irqs c)))"

definition abort_pressed_at :: "nat \<Rightarrow> DoctorStrangeCostume \<Rightarrow> bool" where
  "abort_pressed_at n c =
     (quiet (2 * n) c \<and> off_button_irq (state_manager c) \<and>
      2 * n < length (irqs c) \<and> irqs c ! (2 * n) = [RisingEdge OffButton])"

text \<open>
  \<open>frames_until n c\<close> is the display after the frames that a cycle started on \<open>c\<close> flushes
  before its poll \<open>n\<close> when no poll before finds a request: the first \<open>n\<close> frames of the
  charge phase; or all of them and the first frames of the fade; or all of these, the frame
  of the final pass and the frames of the repetitions done. \<open>ends_black p b\<close> says that \<open>b\<close>
  shows the frames of \<open>p\<close> and then one black frame, with all intensities 0 and the abort and
  charge requests clear.
\<close>

definition frames_until :: "nat \<Rightarrow> DoctorStrangeCostume \<Rightarrow> DoctorStrangeCostume" where
  "frames_until n c =
     (let charged = charge_frames [0..<num_leds c * num_times_to_charge] c;
          step_sizes = map step_size (intensities charged);
          faded = fade_frames [0..<num_steps] step_sizes charged;
          snapped = show_frame (replicate (num_leds c) target_value) faded
      in if n < num_leds c * num_times_to_charge then charge_frames [0..<n] c
         else if n < num_leds c * num_times_to_charge + num_steps
         then fade_frames [0..<n - num_leds c * num_times_to_charge] step_sizes charged
         else resonate_frames [0..<n - num_leds c * num_times_to_charge - num_steps]
                (starting_point_for_resonating c) resonating_values snapped)"

definition ends_black :: "DoctorStrangeCostume \<Rightarrow> DoctorStrangeCostume \<Rightarrow> bool" where
  "ends_black p b =
     (written b = written p @ [replicate (num_leds p) (0, 0, 0)] \<and>
      intensities b = replicate (num_leds p) 0 \<and>
      \<not> abort_requested (state_manager b) \<and>
      \<not> charge_requested (state_manager b))"

text \<open>
  The costume with which an iteration of the main loop that finds the charge request set
  enters the \<open>try\<close> statement: interrupts let in, the line printed, the request cleared.
\<close>

definition cycle_start :: "DoctorStrangeCostume \<Rightarrow> DoctorStrangeCostume" where
  "cycle_start c =
     clear_charge_requested
       (print_line (InMainLoop True
          (toggle_good_evil_requested (state_manager (deliver_irqs c)))
          (abort_requested (state_manager (deliver_irqs c)))) (deliver_irqs c))"

subsection \<open>Particular costumes\<close>

text \<open>
  A costume with a toggle request raised; a fresh costume on which an abort press arrives
  during the second letting-in of interrupts; the same with a charge request set.
\<close>

definition toggle_requested :: "DoctorStrangeCostume \<Rightarrow> DoctorStrangeCostume" where
  "toggle_requested c =
     c\<lparr>state_manager := (state_manager c)\<lparr>toggle_good_evil_requested := True\<rparr>\<rparr>"

definition abort_while_resonating :: DoctorStrangeCostume where
  "abort_while_resonating = new_costume [[], [RisingEdge OffButton]]"

definition charge_then_abort :: DoctorStrangeCostume where
  "charge_then_abort =
     (new_costume [[], [RisingEdge OffButton]])
       \<lparr>state_manager := new_state_manager\<lparr>charge_requested := True\<rparr>\<rparr>"

text \<open>A group of hardware events without a rising edge on the charge line.\<close>

definition no_charge_press :: "hw_event list \<Rightarrow> bool" where
  "no_charge_press es = (RisingEdge ChargeButton \<notin> set es)"

text \<open>
  The constructed costume after a press of the charge button, as the main loop enters the
  cycle, with a press of the abort button as poll \<open>n\<close> of that cycle lets interrupts in and
  no other event before.
\<close>

definition abort_press_in_cycle :: "nat \<Rightarrow> DoctorStrangeCostume" where
  "abort_press_in_cycle n =
     cycle_start (new_costume
       ([RisingEdge ChargeButton] # replicate (2 * n) [] @ [[RisingEdge OffButton]]))"

text \<open>
  Two sequences of hardware events that differ in one press of the moral button. While the
  main loop idles the abort button is pressed (and then, before the debounce timer expires,
  the moral button); the timer expires and the charge button is pressed; the first poll of
  the cycle lets nothing in; the timer expires and the charge button is pressed again; the
  first poll of that cycle lets a press of the abort button in.
\<close>

definition presses_with_toggle :: "hw_event list list" where
  "presses_with_toggle =
     [[RisingEdge OffButton, RisingEdge GoodEvilButton],
      [TimerExpiry, RisingEdge ChargeButton],
      [],
      [TimerExpiry, RisingEdge ChargeButton],
      [RisingEdge OffButton]]"

definition presses_without_toggle :: "hw_event list list" where
  "presses_without_toggle =
     [[RisingEdge OffButton],
      [TimerExpiry, RisingEdge ChargeButton],
      [],
      [TimerExpiry, RisingEdge ChargeButton],
      [RisingEdge OffButton]]"

section \<open>Auxiliary facts\<close>

subsection \<open>\<open>update\<close> and the loops over the pixels\<close>

text \<open>
  On a strip as long as the pixel list, with all channels in range, \<open>update\<close> copies the
  pixels' colours into the strip and flushes it. A loop that sets each pixel of a list of
  distinct indices from that pixel alone has the effect of one map over the pixels.
\<close>

lemma update_pixels_ok:
  "i + length ps \<le> length (strip c) \<Longrightarrow> list_all channels_ok ps \<Longrightarrow>
   update_pixels i ps c =
     Inr (c\<lparr>strip := take i (strip c) @ map rgb ps @ drop (i + length ps) (strip c)\<rparr>)"
proof (induction ps arbitrary: i c)
  case Nil
  then show ?case by simp
next
  case (Cons p ps)
  have i: "i < length (strip c)" using Cons.prems(1) by simp
  have ok: "channel_ok (red p) \<and> channel_ok (green p) \<and> channel_ok (blue p)"
    using Cons.prems(2) by (simp add: channels_ok_def)
  have s: "strip_setitem i (red p, green p, blue p) c = Inr (c\<lparr>strip := (strip c)[i := rgb p]\<rparr>)"
    using i ok by (simp add: strip_setitem_def rgb_def)
  have t: "take (Suc i) ((strip c)[i := rgb p]) = take i (strip c) @ [rgb p]"
    using i by (simp add: take_Suc_conv_app_nth)
  show ?case
    using Cons.prems i t
    by (simp add: s Cons.IH)
qed

lemma update_ok:
  "length (strip c) = length (pixels c) \<Longrightarrow> list_all channels_ok (pixels c) \<Longrightarrow>
   update c = Inr (c\<lparr>strip := map rgb (pixels c), written := written c @ [map rgb (pixels c)]\<rparr>)"
  by (simp add: update_def update_pixels_ok strip_write_def)

lemma rgb_set_pixel_intensity [simp]:
  "rgb (set_pixel_intensity v e p) = derive_channels v e"
  by (simp add: set_pixel_intensity_def rgb_def derive_channels_def)

lemma intensity_set_pixel_intensity [simp]:
  "intensity (set_pixel_intensity v e p) = v"
  by (simp add: set_pixel_intensity_def)

lemma channels_ok_set_pixel_intensity:
  "0 \<le> v \<Longrightarrow> v \<le> 255 \<Longrightarrow> channels_ok (set_pixel_intensity v e p)"
  by (simp add: set_pixel_intensity_def channels_ok_def channel_ok_def)

lemma painted_set_pixel_intensity:
  "0 \<le> v \<Longrightarrow> v \<le> 255 \<Longrightarrow> painted e (set_pixel_intensity v e p)"
  by (simp add: painted_def)

lemma painted_fix: "painted e p \<Longrightarrow> set_pixel_intensity (intensity p) e p = p"
  by (cases p) (auto simp: painted_def set_pixel_intensity_def rgb_def derive_channels_def)

lemma for_each_pointwise:
  assumes "distinct ks" and "\<forall>i\<in>set ks. i < length (pixels c)"
    and "\<And>i c'. i \<in> set ks \<Longrightarrow> i < length (pixels c') \<Longrightarrow>
           body i c' = pixel_set i (h i (pixels c' ! i)) c'"
  shows "for_each ks body c =
     Inr (c\<lparr>pixels :=
            map (\<lambda>j. if j \<in> set ks
                      then set_pixel_intensity (h j (pixels c ! j)) (evil (state_manager c)) (pixels c ! j)
                      else pixels c ! j) [0..<length (pixels c)]\<rparr>)"
  using assms
proof (induction ks arbitrary: c)
  case Nil
  then show ?case by (simp add: map_nth)
next
  case (Cons i ks)
  let ?e = "evil (state_manager c)"
  let ?ps = "pixels c"
  let ?c1 = "c\<lparr>pixels := ?ps[i := set_pixel_intensity (h i (?ps ! i)) ?e (?ps ! i)]\<rparr>"
  have i: "i < length ?ps" and ni: "i \<notin> set ks" and d: "distinct ks"
    using Cons.prems by simp_all
  have b: "body i c = Inr ?c1"
    using Cons.prems(3)[of i c] i by (simp add: pixel_set_def)
  have ih: "for_each ks body ?c1 =
     Inr (?c1\<lparr>pixels :=
            map (\<lambda>j. if j \<in> set ks
                      then set_pixel_intensity (h j (pixels ?c1 ! j)) (evil (state_manager ?c1)) (pixels ?c1 ! j)
                      else pixels ?c1 ! j) [0..<length (pixels ?c1)]\<rparr>)"
    using Cons.prems by (intro Cons.IH) simp_all
  have m: "map (\<lambda>j. if j \<in> set ks
                      then set_pixel_intensity (h j (pixels ?c1 ! j)) (evil (state_manager ?c1)) (pixels ?c1 ! j)
                      else pixels ?c1 ! j) [0..<length (pixels ?c1)]
         = map (\<lambda>j. if j \<in> set (i # ks)
                      then set_pixel_intensity (h j (?ps ! j)) ?e (?ps ! j)
                      else ?ps ! j) [0..<length ?ps]"
    using i ni by (auto simp: nth_list_update)
  show ?case
    by (simp only: for_each.simps b sum.case ih m) simp
qed

lemma for_each_all_pixels:
  assumes "n = length (pixels c)"
    and "\<And>i c'. i < n \<Longrightarrow> i < length (pixels c') \<Longrightarrow>
           body i c' = pixel_set i (h i (pixels c' ! i)) c'"
  shows "for_each [0..<n] body c =
     Inr (c\<lparr>pixels :=
            map2 (\<lambda>v p. set_pixel_intensity v (evil (state_manager c)) p)
              (map (\<lambda>j. h j (pixels c ! j)) [0..<n]) (pixels c)\<rparr>)"
proof -
  have "for_each [0..<n] body c =
     Inr (c\<lparr>pixels :=
            map (\<lambda>j. if j \<in> set [0..<n]
                      then set_pixel_intensity (h j (pixels c ! j)) (evil (state_manager c)) (pixels c ! j)
                      else pixels c ! j) [0..<length (pixels c)]\<rparr>)"
    using assms by (intro for_each_pointwise) simp_all
  moreover have "map (\<lambda>j. if j \<in> set [0..<n]
                      then set_pixel_intensity (h j (pixels c ! j)) (evil (state_manager c)) (pixels c ! j)
                      else pixels c ! j) [0..<length (pixels c)]
     = map2 (\<lambda>v p. set_pixel_intensity v (evil (state_manager c)) p)
              (map (\<lambda>j. h j (pixels c ! j)) [0..<n]) (pixels c)"
  proof (rule nth_equalityI)
    show "length (map (\<lambda>j. if j \<in> set [0..<n]
                      then set_pixel_intensity (h j (pixels c ! j)) (evil (state_manager c)) (pixels c ! j)
                      else pixels c ! j) [0..<length (pixels c)])
      = length (map2 (\<lambda>v p. set_pixel_intensity v (evil (state_manager c)) p)
              (map (\<lambda>j. h j (pixels c ! j)) [0..<n]) (pixels c))"
      using assms(1) by simp
  next
    fix i assume "i < length (map (\<lambda>j. if j \<in> set [0..<n]
                      then set_pixel_intensity (h j (pixels c ! j)) (evil (state_manager c)) (pixels c ! j)
                      else pixels c ! j) [0..<length (pixels c)])"
    then have "i < n" using assms(1) by simp
    then show "map (\<lambda>j. if j \<in> set [0..<n]
                      then set_pixel_intensity (h j (pixels c ! j)) (evil (state_manager c)) (pixels c ! j)
                      else pixels c ! j) [0..<length (pixels c)] ! i
      = map2 (\<lambda>v p. set_pixel_intensity v (evil (state_manager c)) p)
              (map (\<lambda>j. h j (pixels c ! j)) [0..<n]) (pixels c) ! i"
      using assms(1) by simp
  qed
  ultimately show ?thesis by simp
qed

lemma map_rgb_paint:
  "length vs = length ps \<Longrightarrow>
   map rgb (map2 (\<lambda>v p. set_pixel_intensity v e p) vs ps) = frame_of e vs"
  by (induction vs ps rule: list_induct2) (simp_all add: frame_of_def)

lemma channels_ok_paint:
  "in_range vs \<Longrightarrow> list_all channels_ok (map2 (\<lambda>v p. set_pixel_intensity v e p) vs ps)"
proof (induction vs arbitrary: ps)
  case Nil
  then show ?case by simp
next
  case (Cons v vs)
  then show ?case
    by (cases ps) (simp_all add: in_range_def channels_ok_set_pixel_intensity)
qed

lemma update_after_paint:
  assumes "length vs = length (pixels c)" and "length (strip c) = length (pixels c)"
    and "in_range vs"
  shows "update (c\<lparr>pixels := map2 (\<lambda>v p. set_pixel_intensity v (evil (state_manager c)) p) vs (pixels c)\<rparr>)
           = Inr (show_frame vs c)"
proof -
  let ?ps = "map2 (\<lambda>v p. set_pixel_intensity v (evil (state_manager c)) p) vs (pixels c)"
  let ?c1 = "c\<lparr>pixels := ?ps\<rparr>"
  have l: "length (strip ?c1) = length (pixels ?c1)"
    using assms(1,2) by simp
  have ok: "list_all channels_ok (pixels ?c1)"
    using assms(3) channels_ok_paint [of vs "evil (state_manager c)" "pixels c"] by simp
  have f: "map rgb ?ps = frame_of (evil (state_manager c)) vs"
    using assms(1) by (rule map_rgb_paint)
  have "update ?c1 = Inr (?c1\<lparr>strip := map rgb (pixels ?c1),
                               written := written ?c1 @ [map rgb (pixels ?c1)]\<rparr>)"
    using l ok by (rule update_ok)
  also have "pixels ?c1 = ?ps" by simp
  finally show ?thesis
    by (simp only: f show_frame_def) simp
qed

lemma map_const_upt: "map (\<lambda>j. x) [0..<n] = replicate n x"
  by (induction n) (simp_all add: replicate_append_same)

subsection \<open>Every frame is a \<open>show_frame\<close>\<close>

lemma turn_off_sized:
  assumes "sized c"
  shows "turn_off c =
     Inr ((show_frame (replicate (num_leds c) 0) c)
            \<lparr>state_manager := (state_manager c)\<lparr>abort_requested := False\<rparr>\<rparr>)"
proof -
  have n: "num_leds c = length (pixels c)" and s: "length (strip c) = length (pixels c)"
    using assms by (simp_all add: sized_def)
  have "for_each [0..<num_leds c] (\<lambda>i. pixel_set i 0) c =
     Inr (c\<lparr>pixels := map2 (\<lambda>v p. set_pixel_intensity v (evil (state_manager c)) p)
              (map (\<lambda>j. 0) [0..<num_leds c]) (pixels c)\<rparr>)"
    by (rule for_each_all_pixels [OF n]) simp
  then show ?thesis
    using n s
    by (simp add: turn_off_def map_const_upt update_after_paint in_range_def list_all_length
        show_frame_def)
qed

lemma final_pass_sized:
  assumes "sized c"
  shows "final_pass c = Inr (show_frame (replicate (num_leds c) target_value) c)"
proof -
  have n: "num_leds c = length (pixels c)" and s: "length (strip c) = length (pixels c)"
    using assms by (simp_all add: sized_def)
  have "for_each [0..<num_leds c] (\<lambda>i. pixel_set i target_value) c =
     Inr (c\<lparr>pixels := map2 (\<lambda>v p. set_pixel_intensity v (evil (state_manager c)) p)
              (map (\<lambda>j. target_value) [0..<num_leds c]) (pixels c)\<rparr>)"
    by (rule for_each_all_pixels [OF n]) simp
  then show ?thesis
    using n s
    by (simp add: final_pass_def map_const_upt update_after_paint in_range_def list_all_length
        target_value_def)
qed

lemma fade_frame_sized:
  assumes "sized c" and "length step_sizes = num_leds c"
    and "in_range (map2 fade_value step_sizes (intensities c))"
  shows "fade_frame step_sizes c =
           Inr (show_frame (map2 fade_value step_sizes (intensities c)) c)"
proof -
  have n: "num_leds c = length (pixels c)" and s: "length (strip c) = length (pixels c)"
    using assms by (simp_all add: sized_def)
  have "for_each [0..<num_leds c] (fade_pixel step_sizes) c =
     Inr (c\<lparr>pixels := map2 (\<lambda>v p. set_pixel_intensity v (evil (state_manager c)) p)
              (map (\<lambda>j. fade_value (step_sizes ! j) (intensity (pixels c ! j))) [0..<num_leds c])
              (pixels c)\<rparr>)"
    by (rule for_each_all_pixels [OF n]) (simp add: fade_pixel_def fade_value_def assms(2) Let_def)
  moreover have "map (\<lambda>j. fade_value (step_sizes ! j) (intensity (pixels c ! j))) [0..<num_leds c]
      = map2 fade_value step_sizes (intensities c)"
    using n assms(2) by (intro nth_equalityI) (simp_all add: intensities_def)
  ultimately show ?thesis
    using n s assms(2,3)
    by (simp add: fade_frame_def update_after_paint intensities_def)
qed

lemma shift_loop:
  "n \<le> length (pixels c) \<Longrightarrow>
   for_each (rev [1..<n]) shift_pixel c =
     Inr (c\<lparr>pixels :=
            map (\<lambda>j. if 1 \<le> j \<and> j < n
                      then set_pixel_intensity (intensity (pixels c ! (j - 1)))
                             (evil (state_manager c)) (pixels c ! j)
                      else pixels c ! j) [0..<length (pixels c)]\<rparr>)"
proof (induction n arbitrary: c)
  case 0
  then show ?case by (simp add: map_nth)
next
  case (Suc n)
  show ?case
  proof (cases "n = 0")
    case True
    then have "(\<lambda>j. if 1 \<le> j \<and> j < Suc n
                      then set_pixel_intensity (intensity (pixels c ! (j - 1)))
                             (evil (state_manager c)) (pixels c ! j)
                      else pixels c ! j) = (\<lambda>j. pixels c ! j)"
      by auto
    then show ?thesis using True by (simp add: map_nth)
  next
    case False
    let ?e = "evil (state_manager c)"
    let ?ps = "pixels c"
    let ?c1 = "c\<lparr>pixels := ?ps[n := set_pixel_intensity (intensity (?ps ! (n - 1))) ?e (?ps ! n)]\<rparr>"
    have n: "n < length ?ps" using Suc.prems by simp
    have r: "rev [1..<Suc n] = n # rev [1..<n]" using False by simp
    have b: "shift_pixel n c = Inr ?c1"
      using n False by (simp add: shift_pixel_def pixel_set_def)
    have ih: "for_each (rev [1..<n]) shift_pixel ?c1 =
       Inr (?c1\<lparr>pixels :=
            map (\<lambda>j. if 1 \<le> j \<and> j < n
                      then set_pixel_intensity (intensity (pixels ?c1 ! (j - 1)))
                             (evil (state_manager ?c1)) (pixels ?c1 ! j)
                      else pixels ?c1 ! j) [0..<length (pixels ?c1)]\<rparr>)"
      using n by (intro Suc.IH) simp
    have m: "map (\<lambda>j. if 1 \<le> j \<and> j < n
                      then set_pixel_intensity (intensity (pixels ?c1 ! (j - 1)))
                             (evil (state_manager ?c1)) (pixels ?c1 ! j)
                      else pixels ?c1 ! j) [0..<length (pixels ?c1)]
        = map (\<lambda>j. if 1 \<le> j \<and> j < Suc n
                      then set_pixel_intensity (intensity (?ps ! (j - 1))) ?e (?ps ! j)
                      else ?ps ! j) [0..<length ?ps]"
      using n False by (auto simp: nth_list_update)
    show ?thesis
      by (simp only: r for_each.simps b sum.case ih m) simp
  qed
qed

lemma py_int_wave_range:
  "0 \<le> py_int (amplitude + amplitude * sin t) \<and> py_int (amplitude + amplitude * sin t) \<le> 255"
proof -
  have a: "amplitude = 255 / 2" by (simp add: amplitude_def max_val_def)
  have lo: "- 1 \<le> sin t" and hi: "sin t \<le> 1" by simp_all
  have "0 \<le> amplitude + amplitude * sin t"
    unfolding a using lo by linarith
  moreover have "amplitude + amplitude * sin t \<le> 255"
    unfolding a using hi by linarith
  ultimately show ?thesis
    by (simp add: py_int_def floor_le_iff le_floor_iff)
qed

lemma charge_frame_sized:
  assumes "sized c" and "0 < num_leds c" and "in_range (intensities c)"
  shows "charge_frame k c = Inr (show_frame (wave_value k c # butlast (intensities c)) c)"
proof -
  let ?e = "evil (state_manager c)"
  let ?ps = "pixels c"
  let ?ps1 = "map (\<lambda>j. if 1 \<le> j \<and> j < num_leds c
                      then set_pixel_intensity (intensity (?ps ! (j - 1))) ?e (?ps ! j)
                      else ?ps ! j) [0..<length ?ps]"
  let ?c1 = "c\<lparr>pixels := ?ps1\<rparr>"
  let ?vs = "wave_value k c # butlast (intensities c)"
  have n: "num_leds c = length ?ps" and s: "length (strip c) = length ?ps"
    using assms(1) by (simp_all add: sized_def)
  have pos: "0 < length ?ps" using assms(2) n by simp
  have sh: "for_each (rev [1..<num_leds c]) shift_pixel c = Inr ?c1"
    using shift_loop [of "num_leds c" c] n by simp
  have p0: "?ps1 ! 0 = ?ps ! 0" using pos by simp
  have w: "py_int (amplitude + amplitude * sin (pixel_x (pixels ?c1 ! 0) - this_shift k ?c1))
             = wave_value k c"
    using p0 by (simp add: wave_value_def this_shift_def)
  have ps: "pixel_set 0 (wave_value k c) ?c1 =
              Inr (c\<lparr>pixels := ?ps1[0 := set_pixel_intensity (wave_value k c) ?e (?ps ! 0)]\<rparr>)"
    using pos p0 by (simp add: pixel_set_def)
  have lv: "length ?vs = length ?ps" using pos by (simp add: intensities_def)
  have eq: "?ps1[0 := set_pixel_intensity (wave_value k c) ?e (?ps ! 0)]
              = map2 (\<lambda>v p. set_pixel_intensity v ?e p) ?vs ?ps"
  proof (rule nth_equalityI)
    show "length (?ps1[0 := set_pixel_intensity (wave_value k c) ?e (?ps ! 0)])
            = length (map2 (\<lambda>v p. set_pixel_intensity v ?e p) ?vs ?ps)"
      using lv by simp
  next
    fix i
    assume "i < length (?ps1[0 := set_pixel_intensity (wave_value k c) ?e (?ps ! 0)])"
    then have i: "i < length ?ps" by simp
    show "?ps1[0 := set_pixel_intensity (wave_value k c) ?e (?ps ! 0)] ! i
            = map2 (\<lambda>v p. set_pixel_intensity v ?e p) ?vs ?ps ! i"
    proof (cases i)
      case 0
      then show ?thesis using pos lv by simp
    next
      case (Suc j)
      then have "j < length (butlast (intensities c))"
        using i by (simp add: intensities_def)
      then show ?thesis
        using i Suc n lv by (simp add: nth_butlast intensities_def)
    qed
  qed
  have r: "in_range ?vs"
    using assms(3) py_int_wave_range [of "pixel_x (pixels c ! 0) - this_shift k c"]
    by (auto simp: in_range_def wave_value_def list_all_iff dest: in_set_butlastD)
  have "charge_frame k c = update (c\<lparr>pixels := map2 (\<lambda>v p. set_pixel_intensity v ?e p) ?vs ?ps\<rparr>)"
    using assms(2) pos
    by (simp only: charge_frame_def sh sum.case w ps eq) simp
  also have "\<dots> = Inr (show_frame ?vs c)"
    using lv s r by (rule update_after_paint)
  finally show ?thesis .
qed

lemma for_each_map: "for_each (map f xs) body c = for_each xs (\<lambda>x. body (f x)) c"
  by (induction xs arbitrary: c) (simp_all split: sum.splits)

lemma upto_as_upt: "0 \<le> a \<Longrightarrow> [a..int n - 1] = map int [nat a..<n]"
proof (induction n)
  case 0
  then show ?case by simp
next
  case (Suc n)
  show ?case
  proof (cases "a \<le> int n")
    case True
    then have "[a..int (Suc n) - 1] = [a..int n - 1] @ [int n]"
      using upto_rec2 [of a "int n"] by simp
    moreover have "nat a \<le> n" using True Suc.prems by simp
    ultimately show ?thesis using Suc by simp
  next
    case False
    then show ?thesis using Suc.prems by simp
  qed
qed

lemma resonate_frame_ok:
  assumes "costume_ok c" and "0 \<le> start" and "0 \<le> val" and "val \<le> 255"
  shows "resonate_frame start val c =
           Inr (show_frame (resonate_intensities start val (intensities c)) c)"
proof -
  let ?e = "evil (state_manager c)"
  let ?ps = "pixels c"
  let ?s = "nat start"
  let ?vs = "resonate_intensities start val (intensities c)"
  have n: "num_leds c = length ?ps" and s: "length (strip c) = length ?ps"
    and p: "list_all (painted ?e) ?ps"
    using assms(1) by (simp_all add: costume_ok_def sized_def)
  have "for_each [start..int (num_leds c) - 1] (\<lambda>i. pixel_set_int i val) c
          = for_each [?s..<num_leds c] (\<lambda>i. pixel_set_int (int i) val) c"
    using assms(2) by (simp add: upto_as_upt for_each_map)
  also have "\<dots> = Inr (c\<lparr>pixels :=
            map (\<lambda>j. if j \<in> set [?s..<num_leds c]
                      then set_pixel_intensity val ?e (?ps ! j)
                      else ?ps ! j) [0..<length ?ps]\<rparr>)"
    using n by (intro for_each_pointwise) (simp_all add: pixel_set_int_def)
  also have "map (\<lambda>j. if j \<in> set [?s..<num_leds c]
                      then set_pixel_intensity val ?e (?ps ! j)
                      else ?ps ! j) [0..<length ?ps]
       = map2 (\<lambda>v p. set_pixel_intensity v ?e p) ?vs ?ps"
  proof (rule nth_equalityI)
    show "length (map (\<lambda>j. if j \<in> set [?s..<num_leds c]
                      then set_pixel_intensity val ?e (?ps ! j)
                      else ?ps ! j) [0..<length ?ps])
            = length (map2 (\<lambda>v p. set_pixel_intensity v ?e p) ?vs ?ps)"
      by (simp add: resonate_intensities_def intensities_def)
  next
    fix i
    assume "i < length (map (\<lambda>j. if j \<in> set [?s..<num_leds c]
                      then set_pixel_intensity val ?e (?ps ! j)
                      else ?ps ! j) [0..<length ?ps])"
    then have i: "i < length ?ps" by simp
    then have "painted ?e (?ps ! i)" using p by (simp add: list_all_length)
    then have fx: "set_pixel_intensity (intensity (?ps ! i)) ?e (?ps ! i) = ?ps ! i"
      by (rule painted_fix)
    show "map (\<lambda>j. if j \<in> set [?s..<num_leds c]
                      then set_pixel_intensity val ?e (?ps ! j)
                      else ?ps ! j) [0..<length ?ps] ! i
            = map2 (\<lambda>v p. set_pixel_intensity v ?e p) ?vs ?ps ! i"
      using i n fx
      by (simp add: resonate_intensities_def intensities_def nth_append)
  qed
  finally have fe: "for_each [start..int (num_leds c) - 1] (\<lambda>i. pixel_set_int i val) c
      = Inr (c\<lparr>pixels := map2 (\<lambda>v p. set_pixel_intensity v ?e p) ?vs ?ps\<rparr>)" .
  have lv: "length ?vs = length ?ps"
    by (simp add: resonate_intensities_def intensities_def)
  have "\<forall>p\<in>set ?ps. 0 \<le> intensity p \<and> intensity p \<le> 255"
    using p by (simp add: list_all_iff painted_def)
  then have r: "in_range ?vs"
    using assms(3,4)
    by (auto simp: in_range_def resonate_intensities_def intensities_def list_all_iff
        dest!: in_set_takeD)
  show ?thesis
    using update_after_paint [OF lv s r]
    by (simp add: resonate_frame_def fe)
qed

lemma map2_same: "map2 f (map g xs) xs = map (\<lambda>x. f (g x) x) xs"
  by (induction xs) simp_all

lemma toggle_good_evil_ok:
  assumes "sized c" and "in_range (intensities c)"
  shows "toggle_good_evil c =
     Inr ((show_frame (intensities c) (flip_mode c))
            \<lparr>state_manager := (state_manager (flip_mode c))
                                 \<lparr>toggle_good_evil_requested := False\<rparr>\<rparr>)"
proof -
  let ?c1 = "flip_mode c"
  have l: "length (intensities c) = length (pixels ?c1)"
    and s: "length (strip ?c1) = length (pixels ?c1)"
    using assms(1) by (simp_all add: sized_def intensities_def flip_mode_def)
  have m: "map (\<lambda>p. set_pixel_intensity (intensity p) (evil (state_manager ?c1)) p) (pixels ?c1)
        = map2 (\<lambda>v p. set_pixel_intensity v (evil (state_manager ?c1)) p) (intensities c) (pixels ?c1)"
    by (simp add: intensities_def flip_mode_def map2_same)
  have u: "update (?c1\<lparr>pixels := map2 (\<lambda>v p. set_pixel_intensity v (evil (state_manager ?c1)) p)
                                   (intensities c) (pixels ?c1)\<rparr>)
            = Inr (show_frame (intensities c) ?c1)"
    using l s assms(2) by (rule update_after_paint)
  have "toggle_good_evil c =
     (case update (?c1\<lparr>pixels := map (\<lambda>p. set_pixel_intensity (intensity p) (evil (state_manager ?c1)) p) (pixels ?c1)\<rparr>) of
           Inl e \<Rightarrow> Inl e
         | Inr c3 \<Rightarrow>
             Inr (c3\<lparr>state_manager :=
                       (state_manager c3)\<lparr>toggle_good_evil_requested := False\<rparr>\<rparr>))"
    by (simp add: toggle_good_evil_def flip_mode_def Let_def)
  then show ?thesis
    by (simp only: m u sum.case) (simp add: show_frame_def)
qed

subsection \<open>What \<open>show_frame\<close> changes and keeps\<close>

lemma show_frame_fields [simp]:
  "state_manager (show_frame vs c) = state_manager c"
  "irqs (show_frame vs c) = irqs c"
  "console (show_frame vs c) = console c"
  "num_leds (show_frame vs c) = num_leds c"
  "num_charging_waves (show_frame vs c) = num_charging_waves c"
  "lights_per_period (show_frame vs c) = lights_per_period c"
  "strip (show_frame vs c) = frame_of (evil (state_manager c)) vs"
  "written (show_frame vs c) = written c @ [frame_of (evil (state_manager c)) vs]"
  "length (pixels (show_frame vs c)) = min (length vs) (length (pixels c))"
  by (simp_all add: show_frame_def)

lemma length_frame_of [simp]: "length (frame_of e vs) = length vs"
  by (simp add: frame_of_def)

lemma intensities_paint:
  "length vs = length ps \<Longrightarrow>
   map intensity (map2 (\<lambda>v p. set_pixel_intensity v e p) vs ps) = vs"
  by (induction vs ps rule: list_induct2) simp_all

lemma intensities_show_frame:
  "length vs = length (pixels c) \<Longrightarrow> intensities (show_frame vs c) = vs"
  using intensities_paint [of vs "pixels c" "evil (state_manager c)"]
  by (simp add: intensities_def show_frame_def)

lemma pixel_x_set_pixel_intensity [simp]:
  "pixel_x (set_pixel_intensity v e p) = pixel_x p"
  "index (set_pixel_intensity v e p) = index p"
  by (simp_all add: set_pixel_intensity_def)

lemma pixel_x_show_frame:
  "length vs = length (pixels c) \<Longrightarrow> i < length (pixels c) \<Longrightarrow>
   pixel_x (pixels (show_frame vs c) ! i) = pixel_x (pixels c ! i)"
  by (simp add: show_frame_def)

lemma starting_point_show_frame [simp]:
  "starting_point_for_resonating (show_frame vs c) = starting_point_for_resonating c"
  by (simp add: starting_point_for_resonating_def)

lemma painted_paint:
  "in_range vs \<Longrightarrow> list_all (painted e) (map2 (\<lambda>v p. set_pixel_intensity v e p) vs ps)"
proof (induction vs arbitrary: ps)
  case Nil
  then show ?case by simp
next
  case (Cons v vs)
  then show ?case
    by (cases ps) (simp_all add: in_range_def painted_set_pixel_intensity)
qed

lemma costume_ok_show_frame:
  assumes "sized c" and "0 \<le> starting_point_for_resonating c"
    and "length vs = num_leds c" and "in_range vs"
  shows "costume_ok (show_frame vs c)"
proof -
  have "list_all (painted (evil (state_manager c)))
          (map2 (\<lambda>v p. set_pixel_intensity v (evil (state_manager c)) p) vs (pixels c))"
    using assms(4) by (rule painted_paint)
  then have "list_all (painted (evil (state_manager (show_frame vs c)))) (pixels (show_frame vs c))"
    by (simp add: show_frame_def)
  then show ?thesis
    using assms(1,2,3) by (simp add: costume_ok_def sized_def)
qed

lemma costume_ok_in_range: "costume_ok c \<Longrightarrow> in_range (intensities c)"
  by (simp add: costume_ok_def in_range_def intensities_def list_all_iff painted_def)

lemma costume_ok_length: "costume_ok c \<Longrightarrow> length (intensities c) = num_leds c"
  by (simp add: costume_ok_def sized_def intensities_def)

subsection \<open>Interrupts touch the flags, the arming and the timer only\<close>

lemma timer_callback_fields [simp]:
  "evil (timer_callback b sm) = evil sm"
  "charge_requested (timer_callback b sm) = charge_requested sm"
  "toggle_good_evil_requested (timer_callback b sm) = toggle_good_evil_requested sm"
  "abort_requested (timer_callback b sm) = abort_requested sm"
  by (cases b; simp add: initialize_charge_button_def initialize_good_evil_button_def
        initialize_off_button_def)+

lemma on_events_Cons [simp]:
  "on_events (e # es) sm =
     (fst (on_event e sm) @ fst (on_events es (snd (on_event e sm))),
      snd (on_events es (snd (on_event e sm))))"
  by (simp split: prod.splits)

declare on_events.simps(2) [simp del]

lemma on_event_evil [simp]: "evil (snd (on_event e sm)) = evil sm"
  by (cases "(e, sm)" rule: on_event.cases)
    (simp_all add: handler_charge_def handler_trigger_good_evil_def handler_should_abort_def
       split: option.splits)

lemma on_events_evil [simp]: "evil (snd (on_events es sm)) = evil sm"
  by (induction es arbitrary: sm) simp_all

lemma state_manager_deliver_irqs:
  "state_manager (deliver_irqs c) =
     (case irqs c of [] \<Rightarrow> state_manager c | evs # rest \<Rightarrow> snd (on_events evs (state_manager c)))"
  by (simp add: deliver_irqs_def split: list.splits prod.splits)

lemma irqs_deliver_irqs [simp]: "irqs (deliver_irqs c) = tl (irqs c)"
  by (simp add: deliver_irqs_def split: list.splits prod.splits)

lemma deliver_irqs_fields [simp]:
  "pixels (deliver_irqs c) = pixels c"
  "strip (deliver_irqs c) = strip c"
  "written (deliver_irqs c) = written c"
  "num_leds (deliver_irqs c) = num_leds c"
  "num_charging_waves (deliver_irqs c) = num_charging_waves c"
  "lights_per_period (deliver_irqs c) = lights_per_period c"
  by (simp_all add: deliver_irqs_def split: list.splits prod.splits)

lemma deliver_irqs_evil [simp]: "evil (state_manager (deliver_irqs c)) = evil (state_manager c)"
  by (simp add: state_manager_deliver_irqs split: list.splits)

lemma deliver_irqs_views [simp]:
  "intensities (deliver_irqs c) = intensities c"
  "sized (deliver_irqs c) = sized c"
  "starting_point_for_resonating (deliver_irqs c) = starting_point_for_resonating c"
  "costume_ok (deliver_irqs c) = costume_ok c"
  by (simp_all add: intensities_def sized_def starting_point_for_resonating_def costume_ok_def)

subsection \<open>The three outcomes of a poll\<close>

lemma refresh_abort:
  assumes "sized c" and "abort_requested (state_manager (deliver_irqs c))"
  shows "refresh_and_check_state c = Inr (False, turned_off (deliver_irqs c))"
proof -
  have "sized (deliver_irqs c)" using assms(1) by simp
  then show ?thesis
    using assms(2)
    by (simp add: refresh_and_check_state_def Let_def turn_off_sized turned_off_def)
qed

lemma refresh_toggle:
  assumes "costume_ok c" and "\<not> abort_requested (state_manager (deliver_irqs c))"
    and "toggle_good_evil_requested (state_manager (deliver_irqs c))"
  shows "refresh_and_check_state c =
           Inr (True, dismiss_abort (deliver_irqs (toggled (deliver_irqs c))))"
proof -
  have ok: "costume_ok (deliver_irqs c)" using assms(1) by simp
  then have "sized (deliver_irqs c)" and "in_range (intensities (deliver_irqs c))"
    by (simp_all only: costume_ok_in_range) (simp add: costume_ok_def)
  then have "toggle_good_evil (deliver_irqs c) = Inr (toggled (deliver_irqs c))"
    by (simp only: toggle_good_evil_ok toggled_def)
  then show ?thesis
    using assms(2,3) by (simp add: refresh_and_check_state_def Let_def)
qed

lemma refresh_plain:
  assumes "\<not> abort_requested (state_manager (deliver_irqs c))"
    and "\<not> toggle_good_evil_requested (state_manager (deliver_irqs c))"
  shows "refresh_and_check_state c =
           Inr (True, dismiss_abort (deliver_irqs (deliver_irqs c)))"
  using assms by (simp add: refresh_and_check_state_def Let_def)

lemma display_eqD:
  assumes "display a = display b"
  shows "num_leds a = num_leds b" and "strip a = strip b"
    and "num_charging_waves a = num_charging_waves b"
    and "lights_per_period a = lights_per_period b" and "pixels a = pixels b"
    and "evil (state_manager a) = evil (state_manager b)" and "written a = written b"
    and "intensities a = intensities b" and "costume_ok a = costume_ok b"
    and "sized a = sized b"
    and "starting_point_for_resonating a = starting_point_for_resonating b"
    and "wave_value k a = wave_value k b"
    and "display (show_frame vs a) = display (show_frame vs b)"
  using assms
  by (simp_all add: display_def intensities_def costume_ok_def sized_def
      starting_point_for_resonating_def wave_value_def this_shift_def show_frame_def)

lemma display_deliver_irqs [simp]: "display (deliver_irqs c) = display c"
  by (simp add: display_def)

lemma dismiss_abort_fields [simp]:
  "pixels (dismiss_abort c) = pixels c"
  "strip (dismiss_abort c) = strip c"
  "written (dismiss_abort c) = written c"
  "num_leds (dismiss_abort c) = num_leds c"
  "num_charging_waves (dismiss_abort c) = num_charging_waves c"
  "lights_per_period (dismiss_abort c) = lights_per_period c"
  "irqs (dismiss_abort c) = irqs c"
  "console (dismiss_abort c) = console c"
  "evil (state_manager (dismiss_abort c)) = evil (state_manager c)"
  "charge_requested (state_manager (dismiss_abort c)) = charge_requested (state_manager c)"
  "toggle_good_evil_requested (state_manager (dismiss_abort c)) =
     toggle_good_evil_requested (state_manager c)"
  by (simp_all add: dismiss_abort_def)

lemma display_dismiss_abort [simp]: "display (dismiss_abort c) = display c"
  by (simp add: display_def)

lemma dismiss_abort_views [simp]:
  "intensities (dismiss_abort c) = intensities c"
  "costume_ok (dismiss_abort c) = costume_ok c"
  "sized (dismiss_abort c) = sized c"
  using display_eqD [OF display_dismiss_abort [of c]] by simp_all

lemma abort_dismiss_abort:
  "\<not> abort_requested (state_manager c) \<Longrightarrow> \<not> abort_requested (state_manager (dismiss_abort c))"
  by (simp add: dismiss_abort_def)

lemma costume_ok_turned_off:
  assumes "sized d" and "0 \<le> starting_point_for_resonating d"
  shows "costume_ok (turned_off d)"
proof -
  have "costume_ok (show_frame (replicate (num_leds d) 0) d)"
    using assms by (intro costume_ok_show_frame) (simp_all add: in_range_def list_all_length)
  moreover have "display (turned_off d) = display (show_frame (replicate (num_leds d) 0) d)"
    by (simp add: display_def turned_off_def)
  ultimately show ?thesis using display_eqD(9) by blast
qed

lemma intensities_turned_off:
  "sized d \<Longrightarrow> intensities (turned_off d) = replicate (num_leds d) 0"
  using intensities_show_frame [of "replicate (num_leds d) 0" d]
  by (simp add: turned_off_def sized_def intensities_def)

lemma costume_ok_toggled:
  assumes "costume_ok d"
  shows "costume_ok (toggled d)"
proof -
  have "sized (flip_mode d)" and "0 \<le> starting_point_for_resonating (flip_mode d)"
    and "length (intensities d) = num_leds (flip_mode d)"
    using assms
    by (simp_all add: costume_ok_def sized_def flip_mode_def intensities_def
        starting_point_for_resonating_def)
  then have "costume_ok (show_frame (intensities d) (flip_mode d))"
    using costume_ok_in_range [OF assms] by (intro costume_ok_show_frame)
  moreover have "display (toggled d) = display (show_frame (intensities d) (flip_mode d))"
    by (simp add: display_def toggled_def)
  ultimately show ?thesis using display_eqD(9) by blast
qed

lemma intensities_toggled:
  "intensities (toggled d) = intensities d"
  using intensities_show_frame [of "intensities d" "flip_mode d"]
  by (simp add: toggled_def intensities_def flip_mode_def)

subsection \<open>The loops in a calm run\<close>

lemma on_event_harmless:
  "harmless e \<Longrightarrow>
   abort_requested (snd (on_event e sm)) = abort_requested sm \<and>
   toggle_good_evil_requested (snd (on_event e sm)) = toggle_good_evil_requested sm"
  by (cases "(e, sm)" rule: on_event.cases)
    (simp_all add: harmless_def handler_charge_def split: option.splits)

lemma on_events_harmless:
  "list_all harmless es \<Longrightarrow>
   abort_requested (snd (on_events es sm)) = abort_requested sm \<and>
   toggle_good_evil_requested (snd (on_events es sm)) = toggle_good_evil_requested sm"
  by (induction es arbitrary: sm) (simp_all add: on_event_harmless)

lemma calm_deliver_irqs: "calm c \<Longrightarrow> calm (deliver_irqs c)"
  by (cases "irqs c")
    (simp_all add: calm_def state_manager_deliver_irqs on_events_harmless)

lemma calm_dismiss_abort: "calm c \<Longrightarrow> calm (dismiss_abort c)"
  by (simp add: calm_def dismiss_abort_def)

lemma calm_show_frame [simp]: "calm (show_frame vs c) = calm c"
  by (simp add: calm_def)

lemma refresh_calm:
  assumes "calm c"
  shows "refresh_and_check_state c = Inr (True, dismiss_abort (deliver_irqs (deliver_irqs c)))"
proof -
  have "calm (deliver_irqs c)" using assms by (rule calm_deliver_irqs)
  then show ?thesis by (intro refresh_plain) (simp_all add: calm_def)
qed

lemma calm_polled: "calm c \<Longrightarrow> calm (dismiss_abort (deliver_irqs (deliver_irqs c)))"
  by (intro calm_dismiss_abort calm_deliver_irqs)

lemma display_polled [simp]:
  "display (dismiss_abort (deliver_irqs (deliver_irqs c))) = display c"
  by simp

lemma in_range_charge:
  "0 < num_leds c \<Longrightarrow> costume_ok c \<Longrightarrow>
   in_range (wave_value k c # butlast (intensities c)) \<and>
   length (wave_value k c # butlast (intensities c)) = num_leds c"
  using py_int_wave_range [of "pixel_x (pixels c ! 0) - this_shift k c"]
    costume_ok_in_range [of c] costume_ok_length [of c]
  by (auto simp: in_range_def wave_value_def list_all_iff dest: in_set_butlastD)

lemma costume_ok_charge_step:
  assumes "0 < num_leds c" and "costume_ok c"
  shows "costume_ok (show_frame (wave_value k c # butlast (intensities c)) c)"
  using assms in_range_charge [OF assms, of k]
  by (intro costume_ok_show_frame) (simp_all add: costume_ok_def)

lemma costume_ok_charge_frames:
  "0 < num_leds c \<Longrightarrow> costume_ok c \<Longrightarrow> costume_ok (charge_frames ks c)"
  by (induction ks arbitrary: c) (simp_all add: costume_ok_charge_step)

lemma num_leds_charge_frames [simp]: "num_leds (charge_frames ks c) = num_leds c"
  by (induction ks arbitrary: c) simp_all

lemma display_charge_frames:
  "display a = display b \<Longrightarrow> display (charge_frames ks a) = display (charge_frames ks b)"
proof (induction ks arbitrary: a b)
  case Nil
  then show ?case by simp
next
  case (Cons k ks)
  have "display (show_frame (wave_value k a # butlast (intensities a)) a)
      = display (show_frame (wave_value k b # butlast (intensities b)) b)"
    using display_eqD(8,12,13) [OF Cons.prems] by simp
  then have "display (charge_frames ks (show_frame (wave_value k a # butlast (intensities a)) a))
      = display (charge_frames ks (show_frame (wave_value k b # butlast (intensities b)) b))"
    by (rule Cons.IH)
  then show ?case by simp
qed

lemma charge_frame_ok:
  assumes "0 < num_leds c" and "costume_ok c"
  shows "charge_frame k c = Inr (show_frame (wave_value k c # butlast (intensities c)) c)"
  using assms costume_ok_in_range [of c]
  by (intro charge_frame_sized) (simp_all add: costume_ok_def)

lemma charge_up_calm:
  "calm c \<Longrightarrow> costume_ok c \<Longrightarrow> 0 < num_leds c \<Longrightarrow>
   \<exists>c'. charge_up ks c = Inr (False, c') \<and> calm c' \<and>
         display c' = display (charge_frames ks c)"
proof (induction ks arbitrary: c)
  case Nil
  then show ?case by simp
next
  case (Cons k ks)
  let ?c1 = "dismiss_abort (deliver_irqs (deliver_irqs c))"
  let ?c2 = "show_frame (wave_value k ?c1 # butlast (intensities ?c1)) ?c1"
  have p: "refresh_and_check_state c = Inr (True, ?c1)"
    using Cons.prems(1) by (rule refresh_calm)
  have c1: "calm ?c1" "costume_ok ?c1" "0 < num_leds ?c1"
    using Cons.prems calm_polled [of c] by simp_all
  have f: "charge_frame k ?c1 = Inr ?c2"
    using c1 by (intro charge_frame_ok)
  have c2: "calm ?c2" "costume_ok ?c2" "0 < num_leds ?c2"
    using c1 costume_ok_charge_step [of ?c1 k] by simp_all
  obtain c' where r: "charge_up ks ?c2 = Inr (False, c')" "calm c'"
      "display c' = display (charge_frames ks ?c2)"
    using Cons.IH [OF c2] by blast
  have d1: "display ?c1 = display c" by simp
  have "display ?c2 = display (show_frame (wave_value k c # butlast (intensities c)) c)"
    using display_eqD(8,12,13) [OF d1] by simp
  then have "display (charge_frames ks ?c2) = display (charge_frames (k # ks) c)"
    using display_charge_frames [of ?c2 "show_frame (wave_value k c # butlast (intensities c)) c" ks]
    by simp
  then show ?case
    using r by (simp add: p f)
qed

lemma fade_value_range:
  assumes "0 \<le> v" and "v \<le> 255" and "s < 1"
  shows "0 \<le> fade_value s v \<and> fade_value s v \<le> v"
proof (cases "0 \<le> real_of_int v + s")
  case True
  have "\<lfloor>real_of_int v + s\<rfloor> \<le> v"
    using assms(3) by (simp add: floor_le_iff)
  moreover have "0 \<le> \<lfloor>real_of_int v + s\<rfloor>"
    using True by (simp only: zero_le_floor)
  ultimately show ?thesis
    using True by (simp add: fade_value_def py_int_def Let_def)
next
  case False
  define m where "m = \<lceil>real_of_int v + s\<rceil>"
  have m: "m \<le> 0"
    using False by (simp add: m_def ceiling_le_iff)
  have "fade_value s v = (if m < 0 then 0 else m)"
    using False by (simp only: fade_value_def py_int_def Let_def m_def if_False)
  then show ?thesis
    using m assms(1) by auto
qed

lemma in_range_map2_fade:
  "in_range vs \<Longrightarrow> small_steps ss \<Longrightarrow> in_range (map2 fade_value ss vs)"
proof (induction ss arbitrary: vs)
  case Nil
  then show ?case by (simp add: in_range_def)
next
  case (Cons s ss)
  show ?case
  proof (cases vs)
    case Nil
    then show ?thesis by (simp add: in_range_def)
  next
    case (Cons v vs')
    have v: "0 \<le> v" "v \<le> 255" and s: "s < 1"
      using Cons.prems Cons by (simp_all add: in_range_def small_steps_def)
    have "in_range (map2 fade_value ss vs')"
      using Cons.prems Cons by (intro Cons.IH) (simp_all add: in_range_def small_steps_def)
    then show ?thesis
      using fade_value_range [OF v s] v Cons by (simp add: in_range_def)
  qed
qed

lemma costume_ok_fade_step:
  assumes "costume_ok c" and "length ss = num_leds c" and "small_steps ss"
  shows "costume_ok (show_frame (map2 fade_value ss (intensities c)) c)"
  using assms costume_ok_length [OF assms(1)]
    in_range_map2_fade [OF costume_ok_in_range [OF assms(1)] assms(3)]
  by (intro costume_ok_show_frame) (simp_all add: costume_ok_def)

lemma fade_frame_ok:
  assumes "costume_ok c" and "length ss = num_leds c" and "small_steps ss"
  shows "fade_frame ss c = Inr (show_frame (map2 fade_value ss (intensities c)) c)"
  using assms in_range_map2_fade [OF costume_ok_in_range [OF assms(1)] assms(3)]
  by (intro fade_frame_sized) (simp_all add: costume_ok_def)

lemma display_fade_frames:
  "display a = display b \<Longrightarrow> display (fade_frames ks ss a) = display (fade_frames ks ss b)"
proof (induction ks arbitrary: a b)
  case Nil
  then show ?case by simp
next
  case (Cons k ks)
  have "display (show_frame (map2 fade_value ss (intensities a)) a)
      = display (show_frame (map2 fade_value ss (intensities b)) b)"
    using display_eqD(8,13) [OF Cons.prems] by simp
  then have "display (fade_frames ks ss (show_frame (map2 fade_value ss (intensities a)) a))
      = display (fade_frames ks ss (show_frame (map2 fade_value ss (intensities b)) b))"
    by (rule Cons.IH)
  then show ?case by simp
qed

lemma fade_calm:
  "calm c \<Longrightarrow> costume_ok c \<Longrightarrow> length ss = num_leds c \<Longrightarrow> small_steps ss \<Longrightarrow>
   \<exists>c'. fade ks ss c = Inr (False, c') \<and> calm c' \<and>
         display c' = display (fade_frames ks ss c)"
proof (induction ks arbitrary: c)
  case Nil
  then show ?case by simp
next
  case (Cons k ks)
  let ?c1 = "dismiss_abort (deliver_irqs (deliver_irqs c))"
  let ?c2 = "show_frame (map2 fade_value ss (intensities ?c1)) ?c1"
  have p: "refresh_and_check_state c = Inr (True, ?c1)"
    using Cons.prems(1) by (rule refresh_calm)
  have c1: "calm ?c1" "costume_ok ?c1" "length ss = num_leds ?c1"
    using Cons.prems calm_polled [of c] by simp_all
  have f: "fade_frame ss ?c1 = Inr ?c2"
    using c1(2,3) Cons.prems(4) by (intro fade_frame_ok)
  have c2: "calm ?c2" "costume_ok ?c2" "length ss = num_leds ?c2"
    using c1 costume_ok_fade_step [of ?c1 ss] Cons.prems(4) by simp_all
  obtain c' where r: "fade ks ss ?c2 = Inr (False, c')" "calm c'"
      "display c' = display (fade_frames ks ss ?c2)"
    using Cons.IH [OF c2 Cons.prems(4)] by blast
  have d1: "display ?c1 = display c" by simp
  have "display ?c2 = display (show_frame (map2 fade_value ss (intensities c)) c)"
    using display_eqD(8,13) [OF d1] by simp
  then have "display (fade_frames ks ss ?c2) = display (fade_frames (k # ks) ss c)"
    using display_fade_frames [of ?c2 "show_frame (map2 fade_value ss (intensities c)) c" ks ss]
    by simp
  then show ?case
    using r by (simp add: p f)
qed

lemma step_sizes_from_ok:
  "\<forall>i\<in>set ks. i < length (pixels c) \<Longrightarrow>
   step_sizes_from ks acc c = Inr (acc @ map (\<lambda>i. step_size (intensity (pixels c ! i))) ks)"
  by (induction ks arbitrary: acc) (simp_all add: step_size_def)

lemma step_sizes_sized:
  assumes "sized c"
  shows "step_sizes_from [0..<num_leds c] [] c = Inr (map step_size (intensities c))"
proof -
  have n: "num_leds c = length (pixels c)" using assms by (simp add: sized_def)
  have "map (\<lambda>i. step_size (intensity (pixels c ! i))) [0..<length (pixels c)]
          = map step_size (intensities c)"
    by (intro nth_equalityI) (simp_all add: intensities_def)
  then show ?thesis
    using step_sizes_from_ok [of "[0..<num_leds c]" c "[]"] n by simp
qed

lemma small_steps_step_size:
  "in_range vs \<Longrightarrow> small_steps (map step_size vs)"
proof -
  assume "in_range vs"
  then have "\<And>v. v \<in> set vs \<Longrightarrow> step_size v < 1"
  proof -
    fix v assume "in_range vs" and "v \<in> set vs"
    then have "0 \<le> v" by (simp add: in_range_def list_all_iff)
    then show "step_size v < 1"
      by (simp add: step_size_def target_value_def num_steps_def)
  qed
  then show ?thesis by (simp add: small_steps_def list_all_iff)
qed

lemma length_resonate_intensities [simp]:
  "length (resonate_intensities start v vs) = length vs"
  by (simp add: resonate_intensities_def)

lemma resonate_intensities_twice [simp]:
  "resonate_intensities start v (resonate_intensities start w vs) = resonate_intensities start v vs"
  by (cases "nat start \<le> length vs") (simp_all add: resonate_intensities_def min_def)

lemma in_range_resonate_intensities:
  "in_range vs \<Longrightarrow> 0 \<le> v \<Longrightarrow> v \<le> 255 \<Longrightarrow> in_range (resonate_intensities start v vs)"
  by (auto simp: in_range_def resonate_intensities_def list_all_iff dest!: in_set_takeD)

lemma costume_ok_resonate_step:
  assumes "costume_ok c" and "0 \<le> v" and "v \<le> 255"
  shows "costume_ok (show_frame (resonate_intensities start v (intensities c)) c)"
  using assms costume_ok_length [OF assms(1)]
    in_range_resonate_intensities [OF costume_ok_in_range [OF assms(1)] assms(2,3)]
  by (intro costume_ok_show_frame) (simp_all add: costume_ok_def)

lemma resonate_pass_ok:
  "costume_ok c \<Longrightarrow> 0 \<le> start \<Longrightarrow> in_range vals \<Longrightarrow>
   for_each vals (resonate_frame start) c = Inr (resonate_pass start vals c) \<and>
   costume_ok (resonate_pass start vals c)"
proof (induction vals arbitrary: c)
  case Nil
  then show ?case by simp
next
  case (Cons v vals)
  have v: "0 \<le> v" "v \<le> 255" and r: "in_range vals"
    using Cons.prems(3) by (simp_all add: in_range_def)
  have f: "resonate_frame start v c =
             Inr (show_frame (resonate_intensities start v (intensities c)) c)"
    using Cons.prems(1,2) v by (rule resonate_frame_ok)
  have "costume_ok (show_frame (resonate_intensities start v (intensities c)) c)"
    using Cons.prems(1) v by (rule costume_ok_resonate_step)
  then show ?case
    using Cons.IH [OF _ Cons.prems(2) r] by (simp add: f)
qed

lemma resonate_pass_fields [simp]:
  "state_manager (resonate_pass start vals c) = state_manager c"
  "irqs (resonate_pass start vals c) = irqs c"
  "console (resonate_pass start vals c) = console c"
  "num_leds (resonate_pass start vals c) = num_leds c"
  by (induction vals arbitrary: c) simp_all

lemma calm_resonate_pass [simp]: "calm (resonate_pass start vals c) = calm c"
  by (simp add: calm_def)

lemma display_resonate_pass:
  "display a = display b \<Longrightarrow>
   display (resonate_pass start vals a) = display (resonate_pass start vals b)"
proof (induction vals arbitrary: a b)
  case Nil
  then show ?case by simp
next
  case (Cons v vals)
  have "display (show_frame (resonate_intensities start v (intensities a)) a)
      = display (show_frame (resonate_intensities start v (intensities b)) b)"
    using display_eqD(8,13) [OF Cons.prems] by simp
  then have "display (resonate_pass start vals
                 (show_frame (resonate_intensities start v (intensities a)) a))
      = display (resonate_pass start vals
                 (show_frame (resonate_intensities start v (intensities b)) b))"
    by (rule Cons.IH)
  then show ?case by simp
qed

lemma display_resonate_frames:
  "display a = display b \<Longrightarrow>
   display (resonate_frames ks start vals a) = display (resonate_frames ks start vals b)"
proof (induction ks arbitrary: a b)
  case Nil
  then show ?case by simp
next
  case (Cons k ks)
  have "display (resonate_pass start vals a) = display (resonate_pass start vals b)"
    using Cons.prems by (rule display_resonate_pass)
  then have "display (resonate_frames ks start vals (resonate_pass start vals a))
      = display (resonate_frames ks start vals (resonate_pass start vals b))"
    by (rule Cons.IH)
  then show ?case by simp
qed

lemma resonate_calm:
  "calm c \<Longrightarrow> costume_ok c \<Longrightarrow> 0 \<le> start \<Longrightarrow> in_range vals \<Longrightarrow>
   \<exists>c'. resonate ks start vals c = Inr c' \<and> calm c' \<and>
         display c' = display (resonate_frames ks start vals c)"
proof (induction ks arbitrary: c)
  case Nil
  then show ?case by simp
next
  case (Cons k ks)
  let ?c1 = "dismiss_abort (deliver_irqs (deliver_irqs c))"
  let ?c2 = "resonate_pass start vals ?c1"
  have p: "refresh_and_check_state c = Inr (True, ?c1)"
    using Cons.prems(1) by (rule refresh_calm)
  have c1: "calm ?c1" "costume_ok ?c1"
    using Cons.prems calm_polled [of c] by simp_all
  have f: "for_each vals (resonate_frame start) ?c1 = Inr ?c2" and ok2: "costume_ok ?c2"
    using resonate_pass_ok [OF c1(2) Cons.prems(3,4)] by simp_all
  have c2: "calm ?c2" using c1(1) by simp
  obtain c' where r: "resonate ks start vals ?c2 = Inr c'" "calm c'"
      "display c' = display (resonate_frames ks start vals ?c2)"
    using Cons.IH [OF c2 ok2 Cons.prems(3,4)] by blast
  have d1: "display ?c1 = display c" by simp
  have "display ?c2 = display (resonate_pass start vals c)"
    using d1 by (rule display_resonate_pass)
  then have "display (resonate_frames ks start vals ?c2) = display (resonate_frames (k # ks) start vals c)"
    using display_resonate_frames [of ?c2 "resonate_pass start vals c" ks start vals]
    by simp
  then show ?case
    using r by (simp add: p f)
qed

subsection \<open>The frames a calm run flushes\<close>

lemma written_charge_frames:
  "length (written (charge_frames ks c)) = length (written c) + length ks"
  by (induction ks arbitrary: c) simp_all

lemma evil_charge_frames [simp]:
  "state_manager (charge_frames ks c) = state_manager c"
  by (induction ks arbitrary: c) simp_all

lemma fade_frames_fields [simp]:
  "state_manager (fade_frames ks ss c) = state_manager c"
  "num_leds (fade_frames ks ss c) = num_leds c"
  by (induction ks arbitrary: c) simp_all

lemma written_fade_frames:
  "length (written (fade_frames ks ss c)) = length (written c) + length ks"
  by (induction ks arbitrary: c) simp_all

lemma costume_ok_fade_frames:
  "costume_ok c \<Longrightarrow> length ss = num_leds c \<Longrightarrow> small_steps ss \<Longrightarrow>
   costume_ok (fade_frames ks ss c)"
  by (induction ks arbitrary: c) (simp_all add: costume_ok_fade_step)

lemma intensities_resonate_step:
  "intensities (show_frame (resonate_intensities start v (intensities c)) c)
     = resonate_intensities start v (intensities c)"
  by (intro intensities_show_frame) (simp add: intensities_def)

lemma written_resonate_pass:
  "written (resonate_pass start vals c) =
     written c @ map (\<lambda>v. frame_of (evil (state_manager c))
                             (resonate_intensities start v (intensities c))) vals"
  by (induction vals arbitrary: c) (simp_all add: intensities_resonate_step)

lemma intensities_resonate_pass:
  "intensities (resonate_pass start vals c) =
     (if vals = [] then intensities c
      else resonate_intensities start (last vals) (intensities c))"
  by (induction vals arbitrary: c) (simp_all add: intensities_resonate_step)

lemma resonate_intensities_last [simp]:
  "vals \<noteq> [] \<Longrightarrow>
   resonate_intensities start v (resonate_intensities start (last vals) vs)
     = resonate_intensities start v vs"
  by simp

lemma resonate_frames_fields [simp]:
  "state_manager (resonate_frames ks start vals c) = state_manager c"
  by (induction ks arbitrary: c) simp_all

lemma written_resonate_frames:
  "written (resonate_frames ks start vals c) =
     written c @ concat (replicate (length ks)
        (map (\<lambda>v. frame_of (evil (state_manager c))
                     (resonate_intensities start v (intensities c))) vals))"
proof (induction ks arbitrary: c)
  case Nil
  then show ?case by simp
next
  case (Cons k ks)
  show ?case
  proof (cases "vals = []")
    case True
    then show ?thesis using Cons.IH [of c] by simp
  next
    case False
    then show ?thesis
      by (simp add: Cons.IH written_resonate_pass intensities_resonate_pass)
  qed
qed

subsection \<open>The constructed costume\<close>

lemma new_costume_fields [simp]:
  "num_leds (new_costume evs) = 144"
  "num_charging_waves (new_costume evs) = 3"
  "lights_per_period (new_costume evs) = 48"
  "state_manager (new_costume evs) = new_state_manager"
  "written (new_costume evs) = []"
  "console (new_costume evs) = []"
  "irqs (new_costume evs) = evs"
  "length (pixels (new_costume evs)) = 144"
  "length (strip (new_costume evs)) = 144"
  by (simp_all add: new_costume_def)

lemma new_state_manager_fields [simp]:
  "charge_requested new_state_manager = False"
  "toggle_good_evil_requested new_state_manager = False"
  "abort_requested new_state_manager = False"
  "evil new_state_manager = False"
  "charge_button_irq new_state_manager = True"
  "good_evil_button_irq new_state_manager = True"
  "off_button_irq new_state_manager = True"
  "timer new_state_manager = None"
  by (simp_all add: new_state_manager_def initialize_charge_button_def
      initialize_good_evil_button_def initialize_off_button_def)

lemma starting_point_new_costume [simp]:
  "starting_point_for_resonating (new_costume evs) = 97"
  by (simp add: starting_point_for_resonating_def py_int_def)

lemma intensities_new_costume [simp]:
  "intensities (new_costume evs) = replicate 144 0"
  by (simp add: intensities_def new_costume_def new_pixel_def o_def map_const_upt)

lemma costume_ok_new_costume: "costume_ok (new_costume evs)"
proof -
  have "list_all (painted False) (pixels (new_costume evs))"
    by (simp add: new_costume_def list_all_iff painted_def new_pixel_def rgb_def
        derive_channels_def)
  then show ?thesis
    by (simp add: costume_ok_def sized_def)
qed

lemma calm_new_costume: "list_all (list_all harmless) evs \<Longrightarrow> calm (new_costume evs)"
  by (simp add: calm_def)

lemma pixel_x_new_costume:
  "map pixel_x (pixels (new_costume evs))
     = map (\<lambda>i. real i * 2 * pi * 3 / 144 - pi / 2) [0..<144]"
  by (simp add: new_costume_def new_pixel_def o_def initial_offset_def)

lemma wave_value_new_costume: "wave_value 0 (new_costume evs) = 0"
proof -
  have "pixel_x (pixels (new_costume evs) ! 0) = - pi / 2"
    by (simp add: new_costume_def new_pixel_def initial_offset_def nth_map [of 0 "[0..<144]"]
        del: upt_Suc)
  then show ?thesis
    by (simp add: wave_value_def this_shift_def amplitude_def max_val_def py_int_def)
qed

lemma intensities_fade_frames:
  "length ss = length (pixels c) \<Longrightarrow>
   intensities (fade_frames ks ss c)
     = map2 (\<lambda>s v. ((fade_value s) ^^ length ks) v) ss (intensities c)"
proof (induction ks arbitrary: c)
  case Nil
  then show ?case
    by (intro nth_equalityI) (simp_all add: intensities_def)
next
  case (Cons k ks)
  let ?c1 = "show_frame (map2 fade_value ss (intensities c)) c"
  have l: "length (map2 fade_value ss (intensities c)) = length (pixels c)"
    using Cons.prems by (simp add: intensities_def)
  have i1: "intensities ?c1 = map2 fade_value ss (intensities c)"
    using l by (rule intensities_show_frame)
  have "length ss = length (pixels ?c1)"
    using Cons.prems l by simp
  then have "intensities (fade_frames ks ss ?c1)
      = map2 (\<lambda>s v. ((fade_value s) ^^ length ks) v) ss (intensities ?c1)"
    by (rule Cons.IH)
  also have "\<dots> = map2 (\<lambda>s v. ((fade_value s) ^^ length (k # ks)) v) ss (intensities c)"
    unfolding i1 using Cons.prems
    by (intro nth_equalityI) (simp_all add: intensities_def funpow_swap1)
  finally show ?case by simp
qed

lemma funpow_fixed: "f x = x \<Longrightarrow> (f ^^ n) x = x"
  by (induction n) simp_all

lemma length_concat_replicate: "length (concat (replicate n xs)) = n * length xs"
  by (induction n) simp_all

lemma in_range_resonating_values: "in_range resonating_values"
  by (simp add: in_range_def resonating_values_def resonating_value_modifiers_def
      target_value_def)

subsection \<open>The intensities do not depend on the mode\<close>

text \<open>
  Interrupts, polls, frames, loops, cycles and the main loop take costumes that are well
  formed and agree numerically (\<open>alike\<close>) to costumes that are so again, raising nothing.
\<close>

lemma sm_numeric_eq_iff:
  "sm_numeric a = sm_numeric b \<longleftrightarrow>
     charge_requested a = charge_requested b \<and> abort_requested a = abort_requested b \<and>
     debounce_time a = debounce_time b \<and> charge_button_irq a = charge_button_irq b \<and>
     good_evil_button_irq a = good_evil_button_irq b \<and> off_button_irq a = off_button_irq b \<and>
     timer a = timer b"
  by (cases a, cases b) (auto simp: sm_numeric_def)

lemma sm_numeric_timer_callback:
  "sm_numeric (timer_callback b (sm_numeric sm)) = sm_numeric (timer_callback b sm)"
  by (cases b)
    (simp_all add: sm_numeric_def initialize_charge_button_def initialize_good_evil_button_def
       initialize_off_button_def)

lemma sm_numeric_on_event_absorb:
  "sm_numeric (snd (on_event e (sm_numeric sm))) = sm_numeric (snd (on_event e sm))"
proof (cases e)
  case (RisingEdge b)
  then show ?thesis
    by (cases b)
      (simp_all add: sm_numeric_def handler_charge_def handler_trigger_good_evil_def
         handler_should_abort_def)
next
  case TimerExpiry
  show ?thesis
  proof (cases "timer sm")
    case None
    then show ?thesis using TimerExpiry by (simp add: sm_numeric_def)
  next
    case (Some b)
    have "timer (sm_numeric sm) = Some b" using Some by (simp add: sm_numeric_def)
    moreover have "(sm_numeric sm)\<lparr>timer := None\<rparr> = sm_numeric (sm\<lparr>timer := None\<rparr>)"
      by (simp add: sm_numeric_def)
    ultimately show ?thesis
      using TimerExpiry Some by (simp add: sm_numeric_timer_callback)
  qed
qed

lemma sm_numeric_on_event:
  assumes "sm_numeric a = sm_numeric b"
  shows "sm_numeric (snd (on_event e a)) = sm_numeric (snd (on_event e b))"
proof -
  have "sm_numeric (snd (on_event e a)) = sm_numeric (snd (on_event e (sm_numeric a)))"
    by (simp only: sm_numeric_on_event_absorb)
  also have "\<dots> = sm_numeric (snd (on_event e (sm_numeric b)))"
    by (simp only: assms)
  also have "\<dots> = sm_numeric (snd (on_event e b))"
    by (simp only: sm_numeric_on_event_absorb)
  finally show ?thesis .
qed

lemma sm_numeric_on_events:
  "sm_numeric a = sm_numeric b \<Longrightarrow>
   sm_numeric (snd (on_events es a)) = sm_numeric (snd (on_events es b))"
proof (induction es arbitrary: a b)
  case Nil
  then show ?case by simp
next
  case (Cons e es)
  have "sm_numeric (snd (on_event e a)) = sm_numeric (snd (on_event e b))"
    using Cons.prems by (rule sm_numeric_on_event)
  then have "sm_numeric (snd (on_events es (snd (on_event e a))))
      = sm_numeric (snd (on_events es (snd (on_event e b))))"
    by (rule Cons.IH)
  then show ?case by simp
qed

lemma numeric_eqD:
  assumes "numeric a = numeric b"
  shows "num_leds a = num_leds b" and "num_charging_waves a = num_charging_waves b"
    and "lights_per_period a = lights_per_period b"
    and "map (\<lambda>p. (index p, pixel_x p, intensity p)) (pixels a)
           = map (\<lambda>p. (index p, pixel_x p, intensity p)) (pixels b)"
    and "sm_numeric (state_manager a) = sm_numeric (state_manager b)"
    and "irqs a = irqs b"
  using assms by (simp_all add: numeric_def)

lemma numeric_intensities:
  assumes "numeric a = numeric b"
  shows "intensities a = intensities b"
proof -
  have "map (\<lambda>t. snd (snd t)) (map (\<lambda>p. (index p, pixel_x p, intensity p)) (pixels a))
      = map (\<lambda>t. snd (snd t)) (map (\<lambda>p. (index p, pixel_x p, intensity p)) (pixels b))"
    using numeric_eqD(4) [OF assms] by simp
  then show ?thesis by (simp add: intensities_def o_def)
qed

lemma numeric_pixel_x:
  assumes "numeric a = numeric b" and "i < length (pixels a)"
  shows "pixel_x (pixels a ! i) = pixel_x (pixels b ! i)"
proof -
  have l: "length (pixels a) = length (pixels b)"
    using arg_cong [OF numeric_eqD(4) [OF assms(1)], of length] by simp
  have "map (\<lambda>p. (index p, pixel_x p, intensity p)) (pixels a) ! i
      = map (\<lambda>p. (index p, pixel_x p, intensity p)) (pixels b) ! i"
    using numeric_eqD(4) [OF assms(1)] by simp
  then show ?thesis using assms(2) l by simp
qed

lemma numeric_flags:
  assumes "numeric a = numeric b"
  shows "charge_requested (state_manager a) = charge_requested (state_manager b)"
    and "abort_requested (state_manager a) = abort_requested (state_manager b)"
  using numeric_eqD(5) [OF assms] by (simp_all add: sm_numeric_eq_iff)

lemma numeric_wave_value:
  assumes "numeric a = numeric b" and "0 < length (pixels a)"
  shows "wave_value k a = wave_value k b"
  using numeric_pixel_x [OF assms] numeric_eqD(1,2) [OF assms(1)]
  by (simp add: wave_value_def this_shift_def)

lemma numeric_starting_point:
  "numeric a = numeric b \<Longrightarrow>
   starting_point_for_resonating a = starting_point_for_resonating b"
  using numeric_eqD(2,3) [of a b] by (simp add: starting_point_for_resonating_def)

lemma numeric_paint:
  "map (\<lambda>p. (index p, pixel_x p, intensity p)) ps = map (\<lambda>p. (index p, pixel_x p, intensity p)) qs \<Longrightarrow>
   map (\<lambda>p. (index p, pixel_x p, intensity p)) (map2 (\<lambda>v p. set_pixel_intensity v e p) vs ps)
     = map (\<lambda>p. (index p, pixel_x p, intensity p)) (map2 (\<lambda>v p. set_pixel_intensity v e' p) vs qs)"
proof (induction vs arbitrary: ps qs)
  case Nil
  then show ?case by simp
next
  case (Cons v vs)
  show ?case
  proof (cases ps)
    case Nil
    then show ?thesis using Cons.prems by simp
  next
    case p: (Cons p ps')
    then obtain q qs' where q: "qs = q # qs'" using Cons.prems by (cases qs) simp_all
    have "map (\<lambda>p. (index p, pixel_x p, intensity p)) ps' = map (\<lambda>p. (index p, pixel_x p, intensity p)) qs'"
      using Cons.prems p q by simp
    then have "map (\<lambda>p. (index p, pixel_x p, intensity p)) (map2 (\<lambda>v p. set_pixel_intensity v e p) vs ps')
     = map (\<lambda>p. (index p, pixel_x p, intensity p)) (map2 (\<lambda>v p. set_pixel_intensity v e' p) vs qs')"
      by (rule Cons.IH)
    then show ?thesis using Cons.prems p q by simp
  qed
qed

lemma numeric_show_frame:
  assumes "numeric a = numeric b"
  shows "numeric (show_frame vs a) = numeric (show_frame vs b)"
  using numeric_eqD [OF assms]
    numeric_paint [OF numeric_eqD(4) [OF assms], of "evil (state_manager a)" vs "evil (state_manager b)"]
  by (simp add: numeric_def show_frame_def)

lemma numeric_deliver_irqs:
  assumes "numeric a = numeric b"
  shows "numeric (deliver_irqs a) = numeric (deliver_irqs b)"
proof -
  have "sm_numeric (state_manager (deliver_irqs a)) = sm_numeric (state_manager (deliver_irqs b))"
  proof (cases "irqs a")
    case Nil
    then show ?thesis
      using numeric_eqD(5,6) [OF assms] by (simp add: state_manager_deliver_irqs)
  next
    case (Cons evs rest)
    have "sm_numeric (snd (on_events evs (state_manager a)))
        = sm_numeric (snd (on_events evs (state_manager b)))"
      using numeric_eqD(5) [OF assms] by (rule sm_numeric_on_events)
    then show ?thesis
      using Cons numeric_eqD(6) [OF assms] by (simp add: state_manager_deliver_irqs)
  qed
  then show ?thesis
    using numeric_eqD [OF assms] by (simp add: numeric_def)
qed

lemma numeric_dismiss_abort:
  assumes "numeric a = numeric b"
  shows "numeric (dismiss_abort a) = numeric (dismiss_abort b)"
  using numeric_eqD [OF assms]
  by (auto simp: numeric_def dismiss_abort_def sm_numeric_eq_iff)

lemma numeric_turned_off:
  assumes "numeric a = numeric b"
  shows "numeric (turned_off a) = numeric (turned_off b)"
proof -
  have "numeric (show_frame (replicate (num_leds a) 0) a)
      = numeric (show_frame (replicate (num_leds a) 0) b)"
    using assms by (rule numeric_show_frame)
  then show ?thesis
    using numeric_eqD [OF assms]
    by (simp add: numeric_def turned_off_def sm_numeric_eq_iff)
qed

lemma numeric_toggled: "numeric (toggled d) = numeric d"
proof -
  have "map (\<lambda>p. (index p, pixel_x p, intensity p))
          (map2 (\<lambda>v p. set_pixel_intensity v e p) (map intensity ps) ps)
      = map (\<lambda>p. (index p, pixel_x p, intensity p)) ps" for e ps
    by (induction ps) simp_all
  then show ?thesis
    by (simp add: numeric_def toggled_def show_frame_def flip_mode_def intensities_def
        sm_numeric_eq_iff)
qed

lemma numeric_clear_charge_requested:
  assumes "numeric a = numeric b"
  shows "numeric (clear_charge_requested a) = numeric (clear_charge_requested b)"
  using numeric_eqD [OF assms]
  by (simp add: numeric_def clear_charge_requested_def sm_numeric_eq_iff)

lemma numeric_print_line [simp]: "numeric (print_line l c) = numeric c"
  by (simp add: numeric_def print_line_def)

lemma alikeD:
  assumes "alike a b"
  shows "costume_ok a" and "costume_ok b" and "numeric a = numeric b"
  using assms by (simp_all add: alike_def)

lemma alike_deliver_irqs: "alike a b \<Longrightarrow> alike (deliver_irqs a) (deliver_irqs b)"
  using numeric_deliver_irqs [of a b] by (simp add: alike_def)

lemma alike_dismiss_abort: "alike a b \<Longrightarrow> alike (dismiss_abort a) (dismiss_abort b)"
  using numeric_dismiss_abort [of a b] by (simp add: alike_def)

lemma alike_show_frame:
  assumes "alike a b" and "length vs = num_leds a" and "in_range vs"
  shows "alike (show_frame vs a) (show_frame vs b)"
proof -
  have n: "num_leds b = num_leds a"
    using numeric_eqD(1) [OF alikeD(3) [OF assms(1)]] by simp
  have "costume_ok (show_frame vs a)"
    using alikeD(1) [OF assms(1)] assms(2,3)
    by (intro costume_ok_show_frame) (simp_all add: costume_ok_def)
  moreover have "costume_ok (show_frame vs b)"
    using alikeD(2) [OF assms(1)] assms(2,3) n
    by (intro costume_ok_show_frame) (simp_all add: costume_ok_def)
  ultimately show ?thesis
    using numeric_show_frame [OF alikeD(3) [OF assms(1)], of vs] by (simp add: alike_def)
qed

lemma alike_turned_off:
  assumes "alike a b"
  shows "alike (turned_off a) (turned_off b)"
proof -
  have "costume_ok (turned_off a)"
    using alikeD(1) [OF assms] by (intro costume_ok_turned_off) (simp_all add: costume_ok_def)
  moreover have "costume_ok (turned_off b)"
    using alikeD(2) [OF assms] by (intro costume_ok_turned_off) (simp_all add: costume_ok_def)
  ultimately show ?thesis
    using numeric_turned_off [OF alikeD(3) [OF assms]] by (simp add: alike_def)
qed

lemma alike_toggled:
  assumes "alike a b"
  shows "alike (toggled a) b" and "alike a (toggled b)" and "alike (toggled a) (toggled b)"
  using assms by (simp_all add: alike_def numeric_toggled costume_ok_toggled)

lemma alike_clear_charge_requested:
  "alike a b \<Longrightarrow> alike (clear_charge_requested a) (clear_charge_requested b)"
proof -
  assume ab: "alike a b"
  have "display (clear_charge_requested c) = display c" for c
    by (simp add: display_def clear_charge_requested_def)
  then have "costume_ok (clear_charge_requested c) = costume_ok c" for c
    by (rule display_eqD)
  then show ?thesis
    using ab numeric_clear_charge_requested [of a b] by (simp add: alike_def)
qed

lemma alike_print_line: "alike a b \<Longrightarrow> alike (print_line l a) (print_line m b)"
proof -
  assume ab: "alike a b"
  have "display (print_line k c) = display c" for c k
    by (simp add: display_def print_line_def)
  then have "costume_ok (print_line k c) = costume_ok c" for c k
    by (rule display_eqD)
  then show ?thesis
    using ab by (simp add: alike_def)
qed

lemma charge_cleared_turned_off [simp]:
  "charge_requested (state_manager (turned_off d)) = False"
  "abort_requested (state_manager (turned_off d)) = False"
  by (simp_all add: turned_off_def)

lemma num_leds_turned_off [simp]: "num_leds (turned_off d) = num_leds d"
  by (simp add: turned_off_def)

lemma num_leds_toggled [simp]: "num_leds (toggled d) = num_leds d"
  by (simp add: toggled_def flip_mode_def)

lemma refresh_alike:
  assumes "alike a b"
  shows "\<exists>r a' b'. refresh_and_check_state a = Inr (r, a') \<and>
           refresh_and_check_state b = Inr (r, b') \<and> alike a' b' \<and>
           num_leds a' = num_leds a \<and>
           (\<not> r \<longrightarrow> \<not> charge_requested (state_manager a') \<and>
                      \<not> charge_requested (state_manager b'))"
proof -
  let ?a = "deliver_irqs a" and ?b = "deliver_irqs b"
  have d: "alike ?a ?b" using assms by (rule alike_deliver_irqs)
  have ab: "abort_requested (state_manager ?a) = abort_requested (state_manager ?b)"
    using alikeD(3) [OF d] by (rule numeric_flags)
  have oka: "costume_ok a" and okb: "costume_ok b"
    using assms by (simp_all add: alike_def)
  show ?thesis
  proof (cases "abort_requested (state_manager ?a)")
    case True
    have "refresh_and_check_state a = Inr (False, turned_off ?a)"
      using oka True by (intro refresh_abort) (simp_all add: costume_ok_def)
    moreover have "refresh_and_check_state b = Inr (False, turned_off ?b)"
      using okb True ab by (intro refresh_abort) (simp_all add: costume_ok_def)
    moreover have "alike (turned_off ?a) (turned_off ?b)"
      using d by (rule alike_turned_off)
    ultimately show ?thesis
      by (intro exI [of _ False] exI [of _ "turned_off ?a"] exI [of _ "turned_off ?b"]) simp
  next
    case False
    define a1 where "a1 = (if toggle_good_evil_requested (state_manager ?a) then toggled ?a else ?a)"
    define b1 where "b1 = (if toggle_good_evil_requested (state_manager ?b) then toggled ?b else ?b)"
    have ra: "refresh_and_check_state a = Inr (True, dismiss_abort (deliver_irqs a1))"
      using oka False refresh_toggle [of a] refresh_plain [of a] by (simp add: a1_def)
    have rb: "refresh_and_check_state b = Inr (True, dismiss_abort (deliver_irqs b1))"
      using okb False ab refresh_toggle [of b] refresh_plain [of b] by (simp add: b1_def)
    have "alike a1 b1"
      using d alike_toggled [OF d] by (simp add: a1_def b1_def)
    then have "alike (dismiss_abort (deliver_irqs a1)) (dismiss_abort (deliver_irqs b1))"
      by (intro alike_dismiss_abort alike_deliver_irqs)
    moreover have "num_leds (dismiss_abort (deliver_irqs a1)) = num_leds a"
      by (simp add: a1_def)
    ultimately show ?thesis
      using ra rb
      by (intro exI [of _ True] exI [of _ "dismiss_abort (deliver_irqs a1)"]
          exI [of _ "dismiss_abort (deliver_irqs b1)"]) simp
  qed
qed

lemma alike_num_leds: "alike a b \<Longrightarrow> num_leds b = num_leds a"
  using numeric_eqD(1) [of a b] by (simp add: alike_def)

lemma charge_frame_alike:
  assumes "alike a b" and "0 < num_leds a"
  shows "\<exists>a' b'. charge_frame k a = Inr a' \<and> charge_frame k b = Inr b' \<and> alike a' b' \<and>
           num_leds a' = num_leds a"
proof -
  let ?vs = "wave_value k a # butlast (intensities a)"
  have oka: "costume_ok a" and okb: "costume_ok b" and nm: "numeric a = numeric b"
    using assms(1) by (simp_all add: alike_def)
  have nb: "0 < num_leds b" using assms alike_num_leds [OF assms(1)] by simp
  have "0 < length (pixels a)" using oka assms(2) by (simp add: costume_ok_def sized_def)
  then have w: "wave_value k b = wave_value k a"
    using numeric_wave_value [OF nm] by simp
  have i: "intensities b = intensities a"
    using numeric_intensities [OF nm] by simp
  have fa: "charge_frame k a = Inr (show_frame ?vs a)"
    using assms(2) oka by (rule charge_frame_ok)
  have fb: "charge_frame k b = Inr (show_frame ?vs b)"
    using charge_frame_ok [OF nb okb, of k] by (simp add: w i)
  have "alike (show_frame ?vs a) (show_frame ?vs b)"
    using in_range_charge [OF assms(2) oka, of k] assms(1) by (intro alike_show_frame) simp_all
  then show ?thesis using fa fb by simp
qed

lemma charge_up_alike:
  "alike a b \<Longrightarrow> 0 < num_leds a \<Longrightarrow>
   \<exists>r a' b'. charge_up ks a = Inr (r, a') \<and> charge_up ks b = Inr (r, b') \<and> alike a' b' \<and>
     num_leds a' = num_leds a \<and>
     (r \<longrightarrow> \<not> charge_requested (state_manager a') \<and> \<not> charge_requested (state_manager b'))"
proof (induction ks arbitrary: a b)
  case Nil
  then show ?case
    by (intro exI [of _ False] exI [of _ a] exI [of _ b]) simp
next
  case (Cons k ks)
  obtain r a1 b1 where p: "refresh_and_check_state a = Inr (r, a1)"
      "refresh_and_check_state b = Inr (r, b1)" "alike a1 b1" "num_leds a1 = num_leds a"
      "\<not> r \<longrightarrow> \<not> charge_requested (state_manager a1) \<and> \<not> charge_requested (state_manager b1)"
    using refresh_alike [OF Cons.prems(1)] by blast
  show ?case
  proof (cases r)
    case False
    then show ?thesis
      using p by (intro exI [of _ True] exI [of _ a1] exI [of _ b1]) simp
  next
    case True
    have n1: "0 < num_leds a1" using p(4) Cons.prems(2) by simp
    obtain a2 b2 where f: "charge_frame k a1 = Inr a2" "charge_frame k b1 = Inr b2" "alike a2 b2"
        "num_leds a2 = num_leds a1"
      using charge_frame_alike [OF p(3) n1] by blast
    have n2: "0 < num_leds a2" using f(4) n1 by simp
    obtain r' a' b' where ih: "charge_up ks a2 = Inr (r', a')" "charge_up ks b2 = Inr (r', b')"
        "alike a' b'" "num_leds a' = num_leds a2"
        "r' \<longrightarrow> \<not> charge_requested (state_manager a') \<and> \<not> charge_requested (state_manager b')"
      using Cons.IH [OF f(3) n2] by blast
    show ?thesis
      using True p(1,2,4) f(1,2,4) ih
      by (intro exI [of _ r'] exI [of _ a'] exI [of _ b']) simp
  qed
qed

lemma fade_frame_alike:
  assumes "alike a b" and "length ss = num_leds a" and "small_steps ss"
  shows "\<exists>a' b'. fade_frame ss a = Inr a' \<and> fade_frame ss b = Inr b' \<and> alike a' b' \<and>
           num_leds a' = num_leds a"
proof -
  let ?vs = "map2 fade_value ss (intensities a)"
  have oka: "costume_ok a" and okb: "costume_ok b" and nm: "numeric a = numeric b"
    using assms(1) by (simp_all add: alike_def)
  have nb: "length ss = num_leds b" using assms(2) alike_num_leds [OF assms(1)] by simp
  have i: "intensities b = intensities a"
    using numeric_intensities [OF nm] by simp
  have fa: "fade_frame ss a = Inr (show_frame ?vs a)"
    using oka assms(2,3) by (rule fade_frame_ok)
  have fb: "fade_frame ss b = Inr (show_frame ?vs b)"
    using fade_frame_ok [OF okb nb assms(3)] by (simp add: i)
  have "in_range ?vs"
    using costume_ok_in_range [OF oka] assms(3) by (rule in_range_map2_fade)
  moreover have "length ?vs = num_leds a"
    using assms(2) costume_ok_length [OF oka] by simp
  ultimately have "alike (show_frame ?vs a) (show_frame ?vs b)"
    using assms(1) by (intro alike_show_frame)
  then show ?thesis using fa fb by simp
qed

lemma fade_alike:
  "alike a b \<Longrightarrow> length ss = num_leds a \<Longrightarrow> small_steps ss \<Longrightarrow>
   \<exists>r a' b'. fade ks ss a = Inr (r, a') \<and> fade ks ss b = Inr (r, b') \<and> alike a' b' \<and>
     num_leds a' = num_leds a \<and>
     (r \<longrightarrow> \<not> charge_requested (state_manager a') \<and> \<not> charge_requested (state_manager b'))"
proof (induction ks arbitrary: a b)
  case Nil
  then show ?case
    by (intro exI [of _ False] exI [of _ a] exI [of _ b]) simp
next
  case (Cons k ks)
  obtain r a1 b1 where p: "refresh_and_check_state a = Inr (r, a1)"
      "refresh_and_check_state b = Inr (r, b1)" "alike a1 b1" "num_leds a1 = num_leds a"
      "\<not> r \<longrightarrow> \<not> charge_requested (state_manager a1) \<and> \<not> charge_requested (state_manager b1)"
    using refresh_alike [OF Cons.prems(1)] by blast
  show ?case
  proof (cases r)
    case False
    then show ?thesis
      using p by (intro exI [of _ True] exI [of _ a1] exI [of _ b1]) simp
  next
    case True
    have n1: "length ss = num_leds a1" using p(4) Cons.prems(2) by simp
    obtain a2 b2 where f: "fade_frame ss a1 = Inr a2" "fade_frame ss b1 = Inr b2" "alike a2 b2"
        "num_leds a2 = num_leds a1"
      using fade_frame_alike [OF p(3) n1 Cons.prems(3)] by blast
    have n2: "length ss = num_leds a2" using f(4) n1 by simp
    obtain r' a' b' where ih: "fade ks ss a2 = Inr (r', a')" "fade ks ss b2 = Inr (r', b')"
        "alike a' b'" "num_leds a' = num_leds a2"
        "r' \<longrightarrow> \<not> charge_requested (state_manager a') \<and> \<not> charge_requested (state_manager b')"
      using Cons.IH [OF f(3) n2 Cons.prems(3)] by blast
    show ?thesis
      using True p(1,2,4) f(1,2,4) ih
      by (intro exI [of _ r'] exI [of _ a'] exI [of _ b']) simp
  qed
qed

lemma numeric_resonate_pass:
  "numeric a = numeric b \<Longrightarrow>
   numeric (resonate_pass start vals a) = numeric (resonate_pass start vals b)"
proof (induction vals arbitrary: a b)
  case Nil
  then show ?case by simp
next
  case (Cons v vals)
  have "intensities a = intensities b" using Cons.prems by (rule numeric_intensities)
  then have "numeric (show_frame (resonate_intensities start v (intensities a)) a)
      = numeric (show_frame (resonate_intensities start v (intensities b)) b)"
    using numeric_show_frame [OF Cons.prems] by simp
  then have "numeric (resonate_pass start vals
                 (show_frame (resonate_intensities start v (intensities a)) a))
      = numeric (resonate_pass start vals
                 (show_frame (resonate_intensities start v (intensities b)) b))"
    by (rule Cons.IH)
  then show ?case by simp
qed

lemma resonate_pass_alike:
  assumes "alike a b" and "0 \<le> start" and "in_range vals"
  shows "for_each vals (resonate_frame start) a = Inr (resonate_pass start vals a) \<and>
         for_each vals (resonate_frame start) b = Inr (resonate_pass start vals b) \<and>
         alike (resonate_pass start vals a) (resonate_pass start vals b)"
  using resonate_pass_ok [OF alikeD(1) [OF assms(1)] assms(2,3)]
    resonate_pass_ok [OF alikeD(2) [OF assms(1)] assms(2,3)]
    numeric_resonate_pass [OF alikeD(3) [OF assms(1)], of start vals]
  by (simp add: alike_def)

lemma resonate_alike:
  "alike a b \<Longrightarrow> 0 \<le> start \<Longrightarrow> in_range vals \<Longrightarrow>
   \<exists>a' b'. resonate ks start vals a = Inr a' \<and> resonate ks start vals b = Inr b' \<and>
     alike a' b' \<and> num_leds a' = num_leds a"
proof (induction ks arbitrary: a b)
  case Nil
  then show ?case by simp
next
  case (Cons k ks)
  obtain r a1 b1 where p: "refresh_and_check_state a = Inr (r, a1)"
      "refresh_and_check_state b = Inr (r, b1)" "alike a1 b1" "num_leds a1 = num_leds a"
    using refresh_alike [OF Cons.prems(1)] by blast
  show ?case
  proof (cases r)
    case False
    then show ?thesis using p by simp
  next
    case True
    let ?a2 = "resonate_pass start vals a1" and ?b2 = "resonate_pass start vals b1"
    have f: "for_each vals (resonate_frame start) a1 = Inr ?a2"
      "for_each vals (resonate_frame start) b1 = Inr ?b2" "alike ?a2 ?b2"
      using resonate_pass_alike [OF p(3) Cons.prems(2,3)] by simp_all
    obtain a' b' where ih: "resonate ks start vals ?a2 = Inr a'"
        "resonate ks start vals ?b2 = Inr b'" "alike a' b'" "num_leds a' = num_leds ?a2"
      using Cons.IH [OF f(3) Cons.prems(2,3)] by blast
    show ?thesis
      using True p(1,2,4) f(1,2) ih by simp
  qed
qed

lemma charge_cycle_alike:
  assumes "alike a b" and "0 < num_leds a"
  shows "\<exists>a' b'. charge_cycle a = Inr a' \<and> charge_cycle b = Inr b' \<and> alike a' b' \<and>
           num_leds a' = num_leds a \<and>
           \<not> charge_requested (state_manager a') \<and> \<not> charge_requested (state_manager b')"
proof -
  have nb: "num_leds b = num_leds a" using assms(1) by (rule alike_num_leds)
  obtain r1 a1 b1 where c1:
      "charge_up [0..<num_leds a * num_times_to_charge] a = Inr (r1, a1)"
      "charge_up [0..<num_leds a * num_times_to_charge] b = Inr (r1, b1)"
      "alike a1 b1" "num_leds a1 = num_leds a"
      "r1 \<longrightarrow> \<not> charge_requested (state_manager a1) \<and> \<not> charge_requested (state_manager b1)"
    using charge_up_alike [OF assms] by blast
  show ?thesis
  proof (cases r1)
    case True
    then show ?thesis using c1 nb by (simp add: charge_cycle_def)
  next
    case r1: False
    let ?ss = "map step_size (intensities a1)"
    have oka1: "costume_ok a1" and okb1: "costume_ok b1" and nm1: "numeric a1 = numeric b1"
      using c1(3) by (simp_all add: alike_def)
    have nb1: "num_leds b1 = num_leds a1" using c1(3) by (rule alike_num_leds)
    have i1: "intensities b1 = intensities a1"
      using numeric_intensities [OF nm1] by simp
    have sa: "step_sizes_from [0..<num_leds a1] [] a1 = Inr ?ss"
      using oka1 by (intro step_sizes_sized) (simp add: costume_ok_def)
    have sb: "step_sizes_from [0..<num_leds b1] [] b1 = Inr ?ss"
      using okb1 step_sizes_sized [of b1] by (simp add: costume_ok_def i1)
    have l: "length ?ss = num_leds a1" and sm: "small_steps ?ss"
      using costume_ok_length [OF oka1] small_steps_step_size [OF costume_ok_in_range [OF oka1]]
      by simp_all
    obtain r2 a2 b2 where c2:
        "fade [0..<num_steps] ?ss a1 = Inr (r2, a2)" "fade [0..<num_steps] ?ss b1 = Inr (r2, b2)"
        "alike a2 b2" "num_leds a2 = num_leds a1"
        "r2 \<longrightarrow> \<not> charge_requested (state_manager a2) \<and> \<not> charge_requested (state_manager b2)"
      using fade_alike [OF c1(3) l sm] by blast
    show ?thesis
    proof (cases r2)
      case True
      then show ?thesis
        using c1(1,2,4) r1 nb sa sb nb1 c2 by (simp add: charge_cycle_def)
    next
      case r2: False
      let ?vs = "replicate (num_leds a2) target_value"
      have oka2: "costume_ok a2" and okb2: "costume_ok b2"
        using c2(3) by (simp_all add: alike_def)
      have nb2: "num_leds b2 = num_leds a2" using c2(3) by (rule alike_num_leds)
      have fa: "final_pass a2 = Inr (show_frame ?vs a2)"
        using oka2 by (intro final_pass_sized) (simp add: costume_ok_def)
      have fb: "final_pass b2 = Inr (show_frame ?vs b2)"
        using okb2 final_pass_sized [of b2] by (simp add: costume_ok_def nb2)
      have "in_range ?vs"
        by (simp add: in_range_def list_all_iff target_value_def)
      then have c3: "alike (show_frame ?vs a2) (show_frame ?vs b2)"
        using c2(3) by (intro alike_show_frame) simp_all
      let ?st = "starting_point_for_resonating (show_frame ?vs a2)"
      have st: "0 \<le> ?st" using oka2 by (simp add: costume_ok_def)
      have stb: "starting_point_for_resonating (show_frame ?vs b2) = ?st"
        using numeric_starting_point [OF alikeD(3) [OF c2(3)]] by simp
      obtain a4 b4 where c4:
          "resonate [0..<5] ?st resonating_values (show_frame ?vs a2) = Inr a4"
          "resonate [0..<5] ?st resonating_values (show_frame ?vs b2) = Inr b4"
          "alike a4 b4" "num_leds a4 = num_leds (show_frame ?vs a2)"
        using resonate_alike [OF c3 st in_range_resonating_values] by blast
      have "alike (clear_charge_requested (deliver_irqs a4)) (clear_charge_requested (deliver_irqs b4))"
        using c4(3) by (intro alike_clear_charge_requested alike_deliver_irqs)
      moreover have "charge_cycle a = Inr (clear_charge_requested (deliver_irqs a4))"
        using c1(1) r1 sa c2(1) r2 fa c4(1) by (simp add: charge_cycle_def)
      moreover have "charge_cycle b = Inr (clear_charge_requested (deliver_irqs b4))"
        using c1(2) r1 sb nb nb1 c2(2) r2 fb c4(2) stb c1(4) by (simp add: charge_cycle_def)
      moreover have "num_leds (clear_charge_requested (deliver_irqs a4)) = num_leds a"
        using c4(4) c2(4) c1(4) by (simp add: clear_charge_requested_def)
      ultimately show ?thesis
        by (simp add: clear_charge_requested_def)
    qed
  qed
qed

lemma print_line_fields [simp]:
  "state_manager (print_line l c) = state_manager c"
  "num_leds (print_line l c) = num_leds c"
  "pixels (print_line l c) = pixels c"
  "strip (print_line l c) = strip c"
  "written (print_line l c) = written c"
  "irqs (print_line l c) = irqs c"
  "console (print_line l c) = console c @ [l]"
  by (simp_all add: print_line_def)

lemma main_loop_iteration_alike:
  assumes "alike a b" and "0 < num_leds a"
  shows "alike (main_loop_iteration a) (main_loop_iteration b) \<and>
         num_leds (main_loop_iteration a) = num_leds a"
proof -
  define la where "la = InMainLoop (charge_requested (state_manager (deliver_irqs a)))
               (toggle_good_evil_requested (state_manager (deliver_irqs a)))
               (abort_requested (state_manager (deliver_irqs a)))"
  define lb where "lb = InMainLoop (charge_requested (state_manager (deliver_irqs b)))
               (toggle_good_evil_requested (state_manager (deliver_irqs b)))
               (abort_requested (state_manager (deliver_irqs b)))"
  let ?a = "print_line la (deliver_irqs a)" and ?b = "print_line lb (deliver_irqs b)"
  have d: "alike (deliver_irqs a) (deliver_irqs b)"
    using assms(1) by (rule alike_deliver_irqs)
  have ab: "alike ?a ?b" using d by (rule alike_print_line)
  have ma: "main_loop_iteration a =
      (if charge_requested (state_manager (deliver_irqs a))
       then (case charge_cycle (clear_charge_requested ?a) of
               Inl (e, c') \<Rightarrow> print_line (EXCEPTION e) c' | Inr c' \<Rightarrow> c')
       else ?a)"
    by (simp add: main_loop_iteration_def Let_def la_def)
  have mb: "main_loop_iteration b =
      (if charge_requested (state_manager (deliver_irqs b))
       then (case charge_cycle (clear_charge_requested ?b) of
               Inl (e, c') \<Rightarrow> print_line (EXCEPTION e) c' | Inr c' \<Rightarrow> c')
       else ?b)"
    by (simp add: main_loop_iteration_def Let_def lb_def)
  have ch: "charge_requested (state_manager (deliver_irqs a))
      = charge_requested (state_manager (deliver_irqs b))"
    using alikeD(3) [OF d] by (rule numeric_flags)
  have na: "num_leds ?a = num_leds a" by simp
  show ?thesis
  proof (cases "charge_requested (state_manager (deliver_irqs a))")
    case False
    then have "main_loop_iteration a = ?a" and "main_loop_iteration b = ?b"
      using ch by (simp_all only: ma mb if_False)
    then show ?thesis
      using ab na by simp
  next
    case True
    have cl: "alike (clear_charge_requested ?a) (clear_charge_requested ?b)"
      using ab by (rule alike_clear_charge_requested)
    have n: "0 < num_leds (clear_charge_requested ?a)"
      using assms(2) na by (simp add: clear_charge_requested_def)
    obtain a' b' where c: "charge_cycle (clear_charge_requested ?a) = Inr a'"
        "charge_cycle (clear_charge_requested ?b) = Inr b'" "alike a' b'"
        "num_leds a' = num_leds (clear_charge_requested ?a)"
      using charge_cycle_alike [OF cl n] by blast
    have n': "num_leds a' = num_leds a"
      using c(4) na by (simp add: clear_charge_requested_def)
    have "main_loop_iteration a = a'" and "main_loop_iteration b = b'"
      using True ch by (simp_all only: ma mb if_True c(1,2) sum.case)
    then show ?thesis
      using c(3) n' by simp
  qed
qed

lemma run_main_loop_alike:
  "alike a b \<Longrightarrow> 0 < num_leds a \<Longrightarrow>
   alike (run_main_loop n a) (run_main_loop n b)"
proof (induction n arbitrary: a b)
  case 0
  then show ?case by simp
next
  case (Suc n)
  have "alike (main_loop_iteration a) (main_loop_iteration b)"
    and "0 < num_leds (main_loop_iteration a)"
    using main_loop_iteration_alike [OF Suc.prems] Suc.prems(2) by simp_all
  then have "alike (run_main_loop n (main_loop_iteration a)) (run_main_loop n (main_loop_iteration b))"
    by (rule Suc.IH)
  then show ?case by simp
qed

lemma costume_ok_run_main_loop:
  assumes "costume_ok c" and "0 < num_leds c"
  shows "costume_ok (run_main_loop n c)"
proof -
  have "alike c c" using assms(1) by (simp add: alike_def)
  then have "alike (run_main_loop n c) (run_main_loop n c)"
    using assms(2) by (rule run_main_loop_alike)
  then show ?thesis by (simp add: alike_def)
qed

subsection \<open>Particular states\<close>

lemma toggled_fields:
  "evil (state_manager (toggled d)) = (\<not> evil (state_manager d))"
  "toggle_good_evil_requested (state_manager (toggled d)) = False"
  "written (toggled d) = written d @ [frame_of (\<not> evil (state_manager d)) (intensities d)]"
  "strip (toggled d) = frame_of (\<not> evil (state_manager d)) (intensities d)"
  "map rgb (pixels (toggled d)) = frame_of (\<not> evil (state_manager d)) (intensities d)"
  using map_rgb_paint [of "intensities d" "pixels d" "\<not> evil (state_manager d)"]
  by (simp_all add: toggled_def flip_mode_def show_frame_def intensities_def)

lemma numeric_toggle_flag:
  "numeric (c\<lparr>state_manager := (state_manager c)\<lparr>toggle_good_evil_requested := t\<rparr>\<rparr>) = numeric c"
  by (simp add: numeric_def sm_numeric_eq_iff)

lemma costume_ok_toggle_flag:
  "costume_ok (c\<lparr>state_manager := (state_manager c)\<lparr>toggle_good_evil_requested := t\<rparr>\<rparr>)
     = costume_ok c"
proof -
  have "display (c\<lparr>state_manager := (state_manager c)\<lparr>toggle_good_evil_requested := t\<rparr>\<rparr>)
      = display c"
    by (simp add: display_def)
  then show ?thesis by (rule display_eqD)
qed

lemma toggle_requested_views [simp]:
  "costume_ok (toggle_requested c) = costume_ok c"
  "numeric (toggle_requested c) = numeric c"
  "num_leds (toggle_requested c) = num_leds c"
  "irqs (toggle_requested c) = irqs c"
  "abort_requested (state_manager (toggle_requested c)) = abort_requested (state_manager c)"
  "toggle_good_evil_requested (state_manager (toggle_requested c)) = True"
  by (simp_all add: toggle_requested_def costume_ok_toggle_flag numeric_toggle_flag)

lemma deliver_irqs_nothing: "irqs c = [] \<Longrightarrow> deliver_irqs c = c"
  by (simp add: deliver_irqs_def)

lemma turned_off_views:
  assumes "sized d"
  shows "intensities (turned_off d) = replicate (num_leds d) 0"
    and "written (turned_off d) = written d @ [replicate (num_leds d) (0, 0, 0)]"
    and "strip (turned_off d) = replicate (num_leds d) (0, 0, 0)"
proof -
  show "intensities (turned_off d) = replicate (num_leds d) 0"
    using assms by (rule intensities_turned_off)
  have "frame_of e (replicate n 0) = replicate n (0, 0, 0)" for e n
    by (simp add: frame_of_def derive_channels_def)
  then show "written (turned_off d) = written d @ [replicate (num_leds d) (0, 0, 0)]"
    and "strip (turned_off d) = replicate (num_leds d) (0, 0, 0)"
    by (simp_all add: turned_off_def)
qed

lemma length_written_resonate_pass:
  "length (written (resonate_pass start vals c)) = length (written c) + length vals"
  by (simp add: written_resonate_pass)

lemma sized_new_costume: "sized (new_costume evs)"
  by (simp add: sized_def)

lemma abort_arrives:
  "state_manager (deliver_irqs (new_costume ([RisingEdge OffButton] # evs)))
     = new_state_manager\<lparr>off_button_irq := False, abort_requested := True,
                           timer := Some OffButton\<rparr>"
  by (simp add: state_manager_deliver_irqs handler_should_abort_def)

lemma display_print_line [simp]: "display (print_line l c) = display c"
  by (simp add: display_def print_line_def)

lemma display_clear_charge_requested [simp]: "display (clear_charge_requested c) = display c"
  by (simp add: display_def clear_charge_requested_def)

lemma main_loop_iteration_charge_cleared:
  assumes "costume_ok a" and "0 < num_leds a"
  shows "\<not> charge_requested (state_manager (main_loop_iteration a))"
proof -
  define la where "la = InMainLoop (charge_requested (state_manager (deliver_irqs a)))
               (toggle_good_evil_requested (state_manager (deliver_irqs a)))
               (abort_requested (state_manager (deliver_irqs a)))"
  let ?a = "print_line la (deliver_irqs a)"
  have ma: "main_loop_iteration a =
      (if charge_requested (state_manager (deliver_irqs a))
       then (case charge_cycle (clear_charge_requested ?a) of
               Inl (e, c') \<Rightarrow> print_line (EXCEPTION e) c' | Inr c' \<Rightarrow> c')
       else ?a)"
    by (simp add: main_loop_iteration_def Let_def la_def)
  show ?thesis
  proof (cases "charge_requested (state_manager (deliver_irqs a))")
    case False
    then show ?thesis by (simp add: ma)
  next
    case True
    have d: "display (clear_charge_requested ?a) = display a"
      by simp
    have ok: "costume_ok (clear_charge_requested ?a)" and n: "0 < num_leds (clear_charge_requested ?a)"
      using assms display_eqD(1,9) [OF d] by simp_all
    have "alike (clear_charge_requested ?a) (clear_charge_requested ?a)"
      using ok by (simp add: alike_def)
    then obtain a' where "charge_cycle (clear_charge_requested ?a) = Inr a'"
        "\<not> charge_requested (state_manager a')"
      using charge_cycle_alike [OF _ n] by blast
    then show ?thesis using True by (simp add: ma)
  qed
qed

subsection \<open>Requests stay pending while the main loop idles\<close>

lemma on_event_no_charge:
  "RisingEdge ChargeButton \<noteq> e \<Longrightarrow>
   charge_requested (snd (on_event e sm)) = charge_requested sm"
  by (cases "(e, sm)" rule: on_event.cases)
    (simp_all add: handler_trigger_good_evil_def handler_should_abort_def split: option.splits)

lemma on_events_no_charge:
  "RisingEdge ChargeButton \<notin> set es \<Longrightarrow>
   charge_requested (snd (on_events es sm)) = charge_requested sm"
  by (induction es arbitrary: sm) (simp_all add: on_event_no_charge)

lemma on_event_keeps_requests:
  "toggle_good_evil_requested sm \<Longrightarrow> toggle_good_evil_requested (snd (on_event e sm))"
  "abort_requested sm \<Longrightarrow> abort_requested (snd (on_event e sm))"
  by (cases "(e, sm)" rule: on_event.cases;
      simp add: handler_charge_def handler_trigger_good_evil_def handler_should_abort_def
        split: option.splits)+

lemma on_events_keeps_requests:
  "toggle_good_evil_requested sm \<Longrightarrow> toggle_good_evil_requested (snd (on_events es sm))"
  "abort_requested sm \<Longrightarrow> abort_requested (snd (on_events es sm))"
  by (induction es arbitrary: sm) (simp_all add: on_event_keeps_requests)

lemma deliver_irqs_keeps_requests:
  "toggle_good_evil_requested (state_manager c) \<Longrightarrow>
   toggle_good_evil_requested (state_manager (deliver_irqs c))"
  "abort_requested (state_manager c) \<Longrightarrow> abort_requested (state_manager (deliver_irqs c))"
  by (simp_all add: state_manager_deliver_irqs on_events_keeps_requests split: list.splits)

lemma deliver_irqs_no_charge:
  assumes "\<not> charge_requested (state_manager c)"
    and "list_all no_charge_press (take (Suc n) (irqs c))"
  shows "\<not> charge_requested (state_manager (deliver_irqs c))"
  using assms
  by (cases "irqs c")
    (simp_all add: state_manager_deliver_irqs on_events_no_charge no_charge_press_def)

lemma main_loop_iteration_idle:
  assumes "\<not> charge_requested (state_manager (deliver_irqs c))"
  shows "main_loop_iteration c =
     print_line (InMainLoop False
        (toggle_good_evil_requested (state_manager (deliver_irqs c)))
        (abort_requested (state_manager (deliver_irqs c)))) (deliver_irqs c)"
  using assms by (simp add: main_loop_iteration_def Let_def)

lemma run_main_loop_idle:
  "\<not> charge_requested (state_manager c) \<Longrightarrow> toggle_good_evil_requested (state_manager c) \<Longrightarrow>
   list_all no_charge_press (take n (irqs c)) \<Longrightarrow>
   display (run_main_loop n c) = display c \<and>
   toggle_good_evil_requested (state_manager (run_main_loop n c)) \<and>
   \<not> charge_requested (state_manager (run_main_loop n c))"
proof (induction n arbitrary: c)
  case 0
  then show ?case by simp
next
  case (Suc n)
  let ?c1 = "main_loop_iteration c"
  have nc: "\<not> charge_requested (state_manager (deliver_irqs c))"
    using Suc.prems(1,3) by (rule deliver_irqs_no_charge)
  have m: "?c1 = print_line (InMainLoop False
        (toggle_good_evil_requested (state_manager (deliver_irqs c)))
        (abort_requested (state_manager (deliver_irqs c)))) (deliver_irqs c)"
    using nc by (rule main_loop_iteration_idle)
  have t: "toggle_good_evil_requested (state_manager (deliver_irqs c))"
    using Suc.prems(2) by (rule deliver_irqs_keeps_requests)
  have "list_all no_charge_press (take n (tl (irqs c)))"
    using Suc.prems(3) by (cases "irqs c") simp_all
  then have h: "\<not> charge_requested (state_manager ?c1)"
    "toggle_good_evil_requested (state_manager ?c1)"
    "list_all no_charge_press (take n (irqs ?c1))"
    using nc t by (simp_all add: m)
  have d: "display ?c1 = display c" by (simp add: m)
  show ?case
    using Suc.IH [OF h] d by simp
qed

subsection \<open>An abort request found by the first poll of a cycle\<close>

lemma charge_cycle_abort_at_first_poll:
  assumes "sized c" and "abort_requested (state_manager (deliver_irqs c))"
    and "0 < num_leds c"
  shows "charge_cycle c = Inr (turned_off (deliver_irqs c))"
proof -
  have r: "refresh_and_check_state c = Inr (False, turned_off (deliver_irqs c))"
    using assms(1,2) by (rule refresh_abort)
  have cu: "charge_up (k # ks) c = Inr (True, turned_off (deliver_irqs c))" for k ks
    by (simp add: r)
  obtain m where m: "num_leds c * num_times_to_charge = Suc m"
    using assms(3)
    by (cases "num_leds c * num_times_to_charge") (simp_all add: num_times_to_charge_def)
  have "[0..<num_leds c * num_times_to_charge] = 0 # [1..<Suc m]"
    unfolding m by (simp add: upt_rec)
  then show ?thesis
    by (simp only: charge_cycle_def cu) simp
qed

subsection \<open>Polls that find nothing\<close>

lemma calm_quiet: "calm c \<Longrightarrow> quiet m c"
  by (auto simp: calm_def quiet_def list_all_iff dest: in_set_takeD)

lemma quiet_less: "quiet (m + k) c \<Longrightarrow> quiet m c"
  using set_take_subset_set_take [of m "m + k" "irqs c"]
  by (auto simp: quiet_def list_all_iff)

lemma quiet_deliver_irqs: "quiet (Suc m) c \<Longrightarrow> quiet m (deliver_irqs c)"
  by (cases "irqs c")
    (simp_all add: quiet_def state_manager_deliver_irqs on_events_harmless)

lemma quiet_dismiss_abort: "quiet m c \<Longrightarrow> quiet m (dismiss_abort c)"
  by (simp add: quiet_def dismiss_abort_def)

lemma quiet_show_frame [simp]: "quiet m (show_frame vs c) = quiet m c"
  by (simp add: quiet_def)

lemma quiet_polled:
  "quiet (Suc (Suc m)) c \<Longrightarrow> quiet m (dismiss_abort (deliver_irqs (deliver_irqs c)))"
  by (intro quiet_dismiss_abort quiet_deliver_irqs)

lemma refresh_quiet:
  assumes "quiet (Suc m) c"
  shows "refresh_and_check_state c = Inr (True, dismiss_abort (deliver_irqs (deliver_irqs c)))"
proof -
  have "quiet m (deliver_irqs c)" using assms by (rule quiet_deliver_irqs)
  then show ?thesis by (intro refresh_plain) (simp_all add: quiet_def)
qed

lemma timer_callback_off_armed:
  "off_button_irq sm \<Longrightarrow> off_button_irq (timer_callback b sm)"
  by (cases b) (simp_all add: initialize_charge_button_def initialize_good_evil_button_def
      initialize_off_button_def)

lemma on_event_harmless_off_armed:
  "harmless e \<Longrightarrow> off_button_irq sm \<Longrightarrow> off_button_irq (snd (on_event e sm))"
  by (cases "(e, sm)" rule: on_event.cases)
    (simp_all add: harmless_def handler_charge_def timer_callback_off_armed split: option.splits)

lemma on_events_harmless_off_armed:
  "list_all harmless es \<Longrightarrow> off_button_irq sm \<Longrightarrow> off_button_irq (snd (on_events es sm))"
  by (induction es arbitrary: sm) (simp_all add: on_event_harmless_off_armed)

lemma off_armed_deliver_irqs:
  "quiet (Suc m) c \<Longrightarrow> off_button_irq (state_manager c) \<Longrightarrow>
   off_button_irq (state_manager (deliver_irqs c))"
  by (cases "irqs c")
    (simp_all add: quiet_def state_manager_deliver_irqs on_events_harmless_off_armed)

lemma off_armed_dismiss_abort [simp]:
  "off_button_irq (state_manager (dismiss_abort c)) = off_button_irq (state_manager c)"
  by (simp add: dismiss_abort_def)

lemma off_armed_polled:
  assumes "quiet (Suc (Suc m)) c" and "off_button_irq (state_manager c)"
  shows "off_button_irq (state_manager (dismiss_abort (deliver_irqs (deliver_irqs c))))"
proof -
  have "off_button_irq (state_manager (deliver_irqs c))"
    using assms by (rule off_armed_deliver_irqs)
  then have "off_button_irq (state_manager (deliver_irqs (deliver_irqs c)))"
    by (rule off_armed_deliver_irqs [OF quiet_deliver_irqs [OF assms(1)]])
  then show ?thesis by simp
qed

lemma charge_up_quiet:
  "quiet (2 * length xs + m) c \<Longrightarrow> costume_ok c \<Longrightarrow> 0 < num_leds c \<Longrightarrow>
   \<exists>c1. (\<forall>ys. charge_up (xs @ ys) c = charge_up ys c1) \<and> quiet m c1 \<and> costume_ok c1 \<and>
        display c1 = display (charge_frames xs c) \<and>
        irqs c1 = drop (2 * length xs) (irqs c) \<and>
        (off_button_irq (state_manager c) \<longrightarrow> off_button_irq (state_manager c1))"
proof (induction xs arbitrary: c)
  case Nil
  then show ?case by (intro exI [of _ c]) simp
next
  case (Cons k xs)
  let ?c1 = "dismiss_abort (deliver_irqs (deliver_irqs c))"
  let ?c2 = "show_frame (wave_value k ?c1 # butlast (intensities ?c1)) ?c1"
  have q: "quiet (Suc (Suc (2 * length xs + m))) c"
    using Cons.prems(1) by simp
  have p: "refresh_and_check_state c = Inr (True, ?c1)"
    using q by (rule refresh_quiet)
  have c1: "quiet (2 * length xs + m) ?c1" "costume_ok ?c1" "0 < num_leds ?c1"
    using Cons.prems(2,3) quiet_polled [OF q] by simp_all
  have f: "charge_frame k ?c1 = Inr ?c2"
    using c1(3,2) by (rule charge_frame_ok)
  have c2: "quiet (2 * length xs + m) ?c2" "costume_ok ?c2" "0 < num_leds ?c2"
    using c1 costume_ok_charge_step [of ?c1 k] by simp_all
  obtain c' where r: "\<forall>ys. charge_up (xs @ ys) ?c2 = charge_up ys c'" "quiet m c'"
      "display c' = display (charge_frames xs ?c2)"
      "irqs c' = drop (2 * length xs) (irqs ?c2)"
      "off_button_irq (state_manager ?c2) \<longrightarrow> off_button_irq (state_manager c')"
      "costume_ok c'"
    using Cons.IH [OF c2] by blast
  have d1: "display ?c1 = display c" by simp
  have "display ?c2 = display (show_frame (wave_value k c # butlast (intensities c)) c)"
    using display_eqD(8,12,13) [OF d1] by simp
  then have d: "display (charge_frames xs ?c2) = display (charge_frames (k # xs) c)"
    using display_charge_frames [of ?c2 "show_frame (wave_value k c # butlast (intensities c)) c" xs]
    by simp
  have i: "irqs c' = drop (2 * length (k # xs)) (irqs c)"
    using r(4) by (simp add: drop_Suc drop_tl)
  have a: "off_button_irq (state_manager c) \<longrightarrow> off_button_irq (state_manager c')"
    using r(5) off_armed_polled [OF q] by simp
  have u: "\<forall>ys. charge_up ((k # xs) @ ys) c = charge_up ys c'"
    using r(1) by (simp add: p f)
  show ?case
    using u r(2) r(3) r(6) d i a by (intro exI [of _ c']) simp
qed

lemma fade_quiet:
  "quiet (2 * length xs + m) c \<Longrightarrow> costume_ok c \<Longrightarrow> length ss = num_leds c \<Longrightarrow>
   small_steps ss \<Longrightarrow>
   \<exists>c1. (\<forall>ys. fade (xs @ ys) ss c = fade ys ss c1) \<and> quiet m c1 \<and> costume_ok c1 \<and>
        display c1 = display (fade_frames xs ss c) \<and>
        irqs c1 = drop (2 * length xs) (irqs c) \<and>
        (off_button_irq (state_manager c) \<longrightarrow> off_button_irq (state_manager c1))"
proof (induction xs arbitrary: c)
  case Nil
  then show ?case by (intro exI [of _ c]) simp
next
  case (Cons k xs)
  let ?c1 = "dismiss_abort (deliver_irqs (deliver_irqs c))"
  let ?c2 = "show_frame (map2 fade_value ss (intensities ?c1)) ?c1"
  have q: "quiet (Suc (Suc (2 * length xs + m))) c"
    using Cons.prems(1) by simp
  have p: "refresh_and_check_state c = Inr (True, ?c1)"
    using q by (rule refresh_quiet)
  have c1: "quiet (2 * length xs + m) ?c1" "costume_ok ?c1" "length ss = num_leds ?c1"
    using Cons.prems(2,3) quiet_polled [OF q] by simp_all
  have f: "fade_frame ss ?c1 = Inr ?c2"
    using c1(2,3) Cons.prems(4) by (rule fade_frame_ok)
  have c2: "quiet (2 * length xs + m) ?c2" "costume_ok ?c2" "length ss = num_leds ?c2"
    using c1 costume_ok_fade_step [of ?c1 ss] Cons.prems(4) by simp_all
  obtain c' where r: "\<forall>ys. fade (xs @ ys) ss ?c2 = fade ys ss c'" "quiet m c'"
      "display c' = display (fade_frames xs ss ?c2)"
      "irqs c' = drop (2 * length xs) (irqs ?c2)"
      "off_button_irq (state_manager ?c2) \<longrightarrow> off_button_irq (state_manager c')"
      "costume_ok c'"
    using Cons.IH [OF c2 Cons.prems(4)] by blast
  have d1: "display ?c1 = display c" by simp
  have "display ?c2 = display (show_frame (map2 fade_value ss (intensities c)) c)"
    using display_eqD(8,13) [OF d1] by simp
  then have d: "display (fade_frames xs ss ?c2) = display (fade_frames (k # xs) ss c)"
    using display_fade_frames [of ?c2 "show_frame (map2 fade_value ss (intensities c)) c" xs ss]
    by simp
  have i: "irqs c' = drop (2 * length (k # xs)) (irqs c)"
    using r(4) by (simp add: drop_Suc drop_tl)
  have a: "off_button_irq (state_manager c) \<longrightarrow> off_button_irq (state_manager c')"
    using r(5) off_armed_polled [OF q] by simp
  have u: "\<forall>ys. fade ((k # xs) @ ys) ss c = fade ys ss c'"
    using r(1) by (simp add: p f)
  show ?case
    using u r(2) r(3) r(6) d i a by (intro exI [of _ c']) simp
qed

lemma quiet_resonate_pass [simp]: "quiet m (resonate_pass start vals c) = quiet m c"
  by (simp add: quiet_def)

lemma resonate_quiet:
  "quiet (2 * length xs + m) c \<Longrightarrow> costume_ok c \<Longrightarrow> 0 \<le> start \<Longrightarrow> in_range vals \<Longrightarrow>
   \<exists>c1. (\<forall>ys. resonate (xs @ ys) start vals c = resonate ys start vals c1) \<and> quiet m c1 \<and> costume_ok c1 \<and>
        display c1 = display (resonate_frames xs start vals c) \<and>
        irqs c1 = drop (2 * length xs) (irqs c) \<and>
        (off_button_irq (state_manager c) \<longrightarrow> off_button_irq (state_manager c1))"
proof (induction xs arbitrary: c)
  case Nil
  then show ?case by (intro exI [of _ c]) simp
next
  case (Cons k xs)
  let ?c1 = "dismiss_abort (deliver_irqs (deliver_irqs c))"
  let ?c2 = "resonate_pass start vals ?c1"
  have q: "quiet (Suc (Suc (2 * length xs + m))) c"
    using Cons.prems(1) by simp
  have p: "refresh_and_check_state c = Inr (True, ?c1)"
    using q by (rule refresh_quiet)
  have c1: "quiet (2 * length xs + m) ?c1" "costume_ok ?c1"
    using Cons.prems(2) quiet_polled [OF q] by simp_all
  have f: "for_each vals (resonate_frame start) ?c1 = Inr ?c2" and ok2: "costume_ok ?c2"
    using resonate_pass_ok [OF c1(2) Cons.prems(3,4)] by simp_all
  have c2: "quiet (2 * length xs + m) ?c2" using c1(1) by simp
  obtain c' where r: "\<forall>ys. resonate (xs @ ys) start vals ?c2 = resonate ys start vals c'"
      "quiet m c'"
      "display c' = display (resonate_frames xs start vals ?c2)"
      "irqs c' = drop (2 * length xs) (irqs ?c2)"
      "off_button_irq (state_manager ?c2) \<longrightarrow> off_button_irq (state_manager c')"
      "costume_ok c'"
    using Cons.IH [OF c2 ok2 Cons.prems(3,4)] by blast
  have d1: "display ?c1 = display c" by simp
  have "display ?c2 = display (resonate_pass start vals c)"
    using d1 by (rule display_resonate_pass)
  then have d: "display (resonate_frames xs start vals ?c2)
      = display (resonate_frames (k # xs) start vals c)"
    using display_resonate_frames [of ?c2 "resonate_pass start vals c" xs start vals]
    by simp
  have i: "irqs c' = drop (2 * length (k # xs)) (irqs c)"
    using r(4) by (simp add: drop_Suc drop_tl)
  have a: "off_button_irq (state_manager c) \<longrightarrow> off_button_irq (state_manager c')"
    using r(5) off_armed_polled [OF q] by simp
  have u: "\<forall>ys. resonate ((k # xs) @ ys) start vals c = resonate ys start vals c'"
    using r(1) by (simp add: p f)
  show ?case
    using u r(2) r(3) r(6) d i a by (intro exI [of _ c']) simp
qed

lemma charge_phase_quiet:
  assumes "costume_ok c" and "0 < num_leds c"
    and "quiet (2 * (num_leds c * num_times_to_charge) + m) c"
  shows "\<exists>c1. charge_up [0..<num_leds c * num_times_to_charge] c = Inr (False, c1) \<and>
           quiet m c1 \<and> costume_ok c1 \<and>
           display c1 = display (charge_frames [0..<num_leds c * num_times_to_charge] c) \<and>
           irqs c1 = drop (2 * (num_leds c * num_times_to_charge)) (irqs c) \<and>
           (off_button_irq (state_manager c) \<longrightarrow> off_button_irq (state_manager c1))"
proof -
  have q: "quiet (2 * length [0..<num_leds c * num_times_to_charge] + m) c"
    using assms(3) by simp
  obtain c1 where c1: "\<forall>ys. charge_up ([0..<num_leds c * num_times_to_charge] @ ys) c
                          = charge_up ys c1"
      "quiet m c1" "costume_ok c1"
      "display c1 = display (charge_frames [0..<num_leds c * num_times_to_charge] c)"
      "irqs c1 = drop (2 * length [0..<num_leds c * num_times_to_charge]) (irqs c)"
      "off_button_irq (state_manager c) \<longrightarrow> off_button_irq (state_manager c1)"
    using charge_up_quiet [OF q assms(1,2)] by blast
  have "charge_up [0..<num_leds c * num_times_to_charge] c = Inr (False, c1)"
    using c1(1) [rule_format, of "[]"] by simp
  then show ?thesis
    using c1(2-6) by (intro exI [of _ c1]) simp
qed

subsection \<open>An abort request taken by a later poll\<close>

lemma upt_split: "n < m \<Longrightarrow> [0..<m] = [0..<n] @ n # [Suc n..<m]"
  using upt_add_eq_append [of 0 n "m - n"] by (simp add: upt_conv_Cons)

lemma abort_press_found:
  assumes "off_button_irq (state_manager c1)" and "irqs c1 = drop k (irqs c)"
    and "k < length (irqs c)" and "irqs c ! k = [RisingEdge OffButton]"
  shows "abort_requested (state_manager (deliver_irqs c1))"
proof -
  have "irqs c1 = [RisingEdge OffButton] # drop (Suc k) (irqs c)"
    using assms(2,3,4) Cons_nth_drop_Suc [of k "irqs c"] by simp
  then show ?thesis
    using assms(1) by (simp add: state_manager_deliver_irqs handler_should_abort_def)
qed

lemma ends_black_turned_off:
  assumes "sized d" and "display d = display p"
  shows "ends_black p (turned_off d)"
  using turned_off_views(1,2) [OF assms(1)] display_eqD(1,7) [OF assms(2)]
  by (simp add: ends_black_def turned_off_def)

lemma abort_in_charge:
  assumes "costume_ok c" and "0 < num_leds c" and "abort_pressed_at n c"
    and "n < num_leds c * num_times_to_charge"
  shows "\<exists>b. charge_cycle c = Inr b \<and> ends_black (charge_frames [0..<n] c) b"
proof -
  have q: "quiet (2 * length [0..<n] + 0) c" and a: "off_button_irq (state_manager c)"
    and l: "2 * n < length (irqs c)" and e: "irqs c ! (2 * n) = [RisingEdge OffButton]"
    using assms(3) by (simp_all add: abort_pressed_at_def)
  obtain c1 where c1: "\<forall>ys. charge_up ([0..<n] @ ys) c = charge_up ys c1"
      "display c1 = display (charge_frames [0..<n] c)"
      "irqs c1 = drop (2 * length [0..<n]) (irqs c)"
      "off_button_irq (state_manager c1)" "costume_ok c1"
    using charge_up_quiet [OF q assms(1,2)] a by blast
  have sz: "sized c1" using c1(5) by (simp add: costume_ok_def)
  have ab: "abort_requested (state_manager (deliver_irqs c1))"
    using c1(4) c1(3) l e by (intro abort_press_found [of c1 "2 * n" c]) simp_all
  have r: "refresh_and_check_state c1 = Inr (False, turned_off (deliver_irqs c1))"
    using sz ab by (rule refresh_abort)
  have "charge_up [0..<num_leds c * num_times_to_charge] c
      = charge_up (n # [Suc n..<num_leds c * num_times_to_charge]) c1"
    using c1(1) upt_split [OF assms(4)] by simp
  then have cu: "charge_up [0..<num_leds c * num_times_to_charge] c
      = Inr (True, turned_off (deliver_irqs c1))"
    by (simp add: r)
  have cc: "charge_cycle c = Inr (turned_off (deliver_irqs c1))"
    by (simp add: charge_cycle_def cu)
  have "ends_black (charge_frames [0..<n] c) (turned_off (deliver_irqs c1))"
    using sz c1(2) by (intro ends_black_turned_off) simp_all
  then show ?thesis using cc by blast
qed

lemma starting_point_charge_frames [simp]:
  "starting_point_for_resonating (charge_frames ks c) = starting_point_for_resonating c"
  by (induction ks arbitrary: c) simp_all

lemma starting_point_fade_frames [simp]:
  "starting_point_for_resonating (fade_frames ks ss c) = starting_point_for_resonating c"
  by (induction ks arbitrary: c) simp_all

lemma tail_abort_in_fade:
  assumes cu: "charge_up [0..<num_leds c * num_times_to_charge] c = Inr (False, c1)"
    and ok: "costume_ok c1" and d: "display c1 = display p"
    and q: "quiet (2 * j) c1" and a: "off_button_irq (state_manager c1)"
    and i: "irqs c1 = drop k (irqs c)" and l: "k + 2 * j < length (irqs c)"
    and e: "irqs c ! (k + 2 * j) = [RisingEdge OffButton]"
    and j: "j < num_steps"
  shows "\<exists>b. charge_cycle c = Inr b \<and>
           ends_black (fade_frames [0..<j] (map step_size (intensities p)) p) b"
proof -
  let ?ss = "map step_size (intensities c1)"
  have sz: "sized c1" using ok by (simp add: costume_ok_def)
  have st: "step_sizes_from [0..<num_leds c1] [] c1 = Inr ?ss"
    using sz by (rule step_sizes_sized)
  have ls: "length ?ss = num_leds c1" and sm: "small_steps ?ss"
    using costume_ok_length [OF ok] small_steps_step_size [OF costume_ok_in_range [OF ok]]
    by simp_all
  have q': "quiet (2 * length [0..<j] + 0) c1" using q by simp
  obtain c2 where c2: "\<forall>ys. fade ([0..<j] @ ys) ?ss c1 = fade ys ?ss c2"
      "display c2 = display (fade_frames [0..<j] ?ss c1)"
      "irqs c2 = drop (2 * length [0..<j]) (irqs c1)"
      "off_button_irq (state_manager c2)" "costume_ok c2"
    using fade_quiet [OF q' ok ls sm] a by blast
  have sz2: "sized c2" using c2(5) by (simp add: costume_ok_def)
  have i2: "irqs c2 = drop (k + 2 * j) (irqs c)"
    using c2(3) i by (simp add: add.commute)
  have ab: "abort_requested (state_manager (deliver_irqs c2))"
    using c2(4) i2 l e by (rule abort_press_found)
  have r: "refresh_and_check_state c2 = Inr (False, turned_off (deliver_irqs c2))"
    using sz2 ab by (rule refresh_abort)
  have "fade [0..<num_steps] ?ss c1 = fade (j # [Suc j..<num_steps]) ?ss c2"
    using c2(1) upt_split [OF j] by simp
  then have fa: "fade [0..<num_steps] ?ss c1 = Inr (True, turned_off (deliver_irqs c2))"
    by (simp add: r)
  have cc: "charge_cycle c = Inr (turned_off (deliver_irqs c2))"
    by (simp add: charge_cycle_def cu st fa)
  have ss: "?ss = map step_size (intensities p)"
    using display_eqD(8) [OF d] by simp
  have "display (fade_frames [0..<j] ?ss c1) = display (fade_frames [0..<j] ?ss p)"
    using d by (rule display_fade_frames)
  then have d2: "display (deliver_irqs c2)
      = display (fade_frames [0..<j] (map step_size (intensities p)) p)"
    using c2(2) ss by simp
  have "ends_black (fade_frames [0..<j] (map step_size (intensities p)) p)
          (turned_off (deliver_irqs c2))"
    using sz2 d2 by (intro ends_black_turned_off) simp_all
  then show ?thesis using cc by blast
qed

lemma tail_to_resonate:
  assumes cu: "charge_up [0..<num_leds c * num_times_to_charge] c = Inr (False, c1)"
    and ok: "costume_ok c1" and d: "display c1 = display p"
    and q: "quiet (2 * num_steps + m) c1"
  shows "\<exists>c3. charge_cycle c =
             (case resonate [0..<5] (starting_point_for_resonating p) resonating_values c3 of
                Inl e \<Rightarrow> Inl e
              | Inr c4 \<Rightarrow> Inr (clear_charge_requested (deliver_irqs c4))) \<and>
           costume_ok c3 \<and> quiet m c3 \<and>
           display c3 = display (show_frame (replicate (num_leds p) target_value)
                          (fade_frames [0..<num_steps] (map step_size (intensities p)) p)) \<and>
           irqs c3 = drop (2 * num_steps) (irqs c1) \<and>
           (off_button_irq (state_manager c1) \<longrightarrow> off_button_irq (state_manager c3))"
proof -
  let ?ss = "map step_size (intensities c1)"
  have sz: "sized c1" using ok by (simp add: costume_ok_def)
  have st: "step_sizes_from [0..<num_leds c1] [] c1 = Inr ?ss"
    using sz by (rule step_sizes_sized)
  have ls: "length ?ss = num_leds c1" and sm: "small_steps ?ss"
    using costume_ok_length [OF ok] small_steps_step_size [OF costume_ok_in_range [OF ok]]
    by simp_all
  have q': "quiet (2 * length [0..<num_steps] + m) c1" using q by simp
  obtain c2 where c2: "\<forall>ys. fade ([0..<num_steps] @ ys) ?ss c1 = fade ys ?ss c2"
      "quiet m c2"
      "display c2 = display (fade_frames [0..<num_steps] ?ss c1)"
      "irqs c2 = drop (2 * length [0..<num_steps]) (irqs c1)"
      "off_button_irq (state_manager c1) \<longrightarrow> off_button_irq (state_manager c2)"
      "costume_ok c2"
    using fade_quiet [OF q' ok ls sm] by blast
  have fa: "fade [0..<num_steps] ?ss c1 = Inr (False, c2)"
    using c2(1) [rule_format, of "[]"] by simp
  have ok2: "costume_ok c2" by (rule c2(6))
  then have sz2: "sized c2" by (simp add: costume_ok_def)
  let ?c3 = "show_frame (replicate (num_leds c2) target_value) c2"
  have fp: "final_pass c2 = Inr ?c3"
    using sz2 by (rule final_pass_sized)
  have ss: "?ss = map step_size (intensities p)"
    using display_eqD(8) [OF d] by simp
  have "display (fade_frames [0..<num_steps] ?ss c1) = display (fade_frames [0..<num_steps] ?ss p)"
    using d by (rule display_fade_frames)
  then have d2: "display c2 = display (fade_frames [0..<num_steps] (map step_size (intensities p)) p)"
    using c2(3) ss by simp
  have n2: "num_leds c2 = num_leds p"
    using display_eqD(1) [OF d2] by simp
  have d3: "display ?c3 = display (show_frame (replicate (num_leds p) target_value)
                          (fade_frames [0..<num_steps] (map step_size (intensities p)) p))"
    using display_eqD(13) [OF d2] n2 by simp
  have "in_range (replicate (num_leds c2) target_value)"
    by (simp add: in_range_def list_all_length target_value_def)
  then have ok3: "costume_ok ?c3"
    using ok2 by (intro costume_ok_show_frame) (simp_all add: costume_ok_def)
  have s3: "starting_point_for_resonating ?c3 = starting_point_for_resonating p"
    using display_eqD(11) [OF d2] by simp
  have cc: "charge_cycle c =
             (case resonate [0..<5] (starting_point_for_resonating p) resonating_values ?c3 of
                Inl e \<Rightarrow> Inl e
              | Inr c4 \<Rightarrow> Inr (clear_charge_requested (deliver_irqs c4)))"
    by (simp add: charge_cycle_def cu st fa fp s3 del: starting_point_show_frame)
  show ?thesis
    using cc ok3 c2(2) d3 c2(4) c2(5) by (intro exI [of _ ?c3]) simp
qed

lemma resonate_abort_at:
  assumes ok: "costume_ok c3" and d: "display c3 = display p"
    and s: "0 \<le> start"
    and q: "quiet (2 * r) c3" and a: "off_button_irq (state_manager c3)"
    and i: "irqs c3 = drop k (irqs c)" and l: "k + 2 * r < length (irqs c)"
    and e: "irqs c ! (k + 2 * r) = [RisingEdge OffButton]"
    and r: "r < m"
  shows "\<exists>b. resonate [0..<m] start resonating_values c3 = Inr b \<and>
           ends_black (resonate_frames [0..<r] start resonating_values p) b"
proof -
  have q': "quiet (2 * length [0..<r] + 0) c3" using q by simp
  obtain c4 where c4: "\<forall>ys. resonate ([0..<r] @ ys) start resonating_values c3
                          = resonate ys start resonating_values c4"
      "display c4 = display (resonate_frames [0..<r] start resonating_values c3)"
      "irqs c4 = drop (2 * length [0..<r]) (irqs c3)"
      "off_button_irq (state_manager c4)" "costume_ok c4"
    using resonate_quiet [OF q' ok s in_range_resonating_values] a by blast
  have d4: "display (deliver_irqs c4) = display (resonate_frames [0..<r] start resonating_values p)"
    using c4(2) display_resonate_frames [OF d, of "[0..<r]" start resonating_values] by simp
  have sz4: "sized c4" using c4(5) by (simp add: costume_ok_def)
  have i4: "irqs c4 = drop (k + 2 * r) (irqs c)"
    using c4(3) i by (simp add: add.commute)
  have ab: "abort_requested (state_manager (deliver_irqs c4))"
    using c4(4) i4 l e by (rule abort_press_found)
  have rf: "refresh_and_check_state c4 = Inr (False, turned_off (deliver_irqs c4))"
    using sz4 ab by (rule refresh_abort)
  have "resonate [0..<m] start resonating_values c3
      = resonate (r # [Suc r..<m]) start resonating_values c4"
    using c4(1) upt_split [OF r] by simp
  then have rs: "resonate [0..<m] start resonating_values c3 = Inr (turned_off (deliver_irqs c4))"
    by (simp add: rf)
  have "ends_black (resonate_frames [0..<r] start resonating_values p)
          (turned_off (deliver_irqs c4))"
    using sz4 d4 by (intro ends_black_turned_off) simp_all
  then show ?thesis using rs by blast
qed

lemma tail_abort_in_resonate:
  assumes cu: "charge_up [0..<num_leds c * num_times_to_charge] c = Inr (False, c1)"
    and ok: "costume_ok c1" and d: "display c1 = display p"
    and q: "quiet (2 * num_steps + 2 * r) c1" and a: "off_button_irq (state_manager c1)"
    and i: "irqs c1 = drop k (irqs c)" and l: "k + 2 * num_steps + 2 * r < length (irqs c)"
    and e: "irqs c ! (k + 2 * num_steps + 2 * r) = [RisingEdge OffButton]"
    and r: "r < 5"
  shows "\<exists>b. charge_cycle c = Inr (clear_charge_requested (deliver_irqs b)) \<and>
           ends_black (resonate_frames [0..<r] (starting_point_for_resonating p) resonating_values
             (show_frame (replicate (num_leds p) target_value)
                (fade_frames [0..<num_steps] (map step_size (intensities p)) p))) b"
proof -
  let ?t = "show_frame (replicate (num_leds p) target_value)
                (fade_frames [0..<num_steps] (map step_size (intensities p)) p)"
  obtain c3 where c3: "charge_cycle c =
             (case resonate [0..<5] (starting_point_for_resonating p) resonating_values c3 of
                Inl e \<Rightarrow> Inl e
              | Inr c4 \<Rightarrow> Inr (clear_charge_requested (deliver_irqs c4)))"
      "costume_ok c3" "quiet (2 * r) c3" "display c3 = display ?t"
      "irqs c3 = drop (2 * num_steps) (irqs c1)"
      "off_button_irq (state_manager c3)"
    using tail_to_resonate [OF cu ok d q] a by blast
  have s: "0 \<le> starting_point_for_resonating p"
    using ok display_eqD(11) [OF d] by (simp add: costume_ok_def)
  have i3: "irqs c3 = drop (k + 2 * num_steps) (irqs c)"
    using c3(5) i by (simp add: add.commute)
  obtain b where b: "resonate [0..<5] (starting_point_for_resonating p) resonating_values c3 = Inr b"
      "ends_black (resonate_frames [0..<r] (starting_point_for_resonating p) resonating_values ?t) b"
    using resonate_abort_at [OF c3(2) c3(4) s c3(3) c3(6) i3 l e r] by blast
  show ?thesis
    using c3(1) b by (intro exI [of _ b]) simp
qed

lemma abort_at_any_poll:
  assumes "costume_ok c" and "0 < num_leds c" and "abort_pressed_at n c"
  shows "n < num_leds c * num_times_to_charge + num_steps \<longrightarrow>
           (\<exists>b. charge_cycle c = Inr b \<and> ends_black (frames_until n c) b)"
    and "num_leds c * num_times_to_charge + num_steps \<le> n \<and>
         n < num_leds c * num_times_to_charge + num_steps + 5 \<longrightarrow>
           (\<exists>b. charge_cycle c = Inr (clear_charge_requested (deliver_irqs b)) \<and>
                ends_black (frames_until n c) b)"
proof -
  let ?N = "num_leds c * num_times_to_charge"
  let ?F = "charge_frames [0..<?N] c"
  have q: "quiet (2 * n) c" and a: "off_button_irq (state_manager c)"
    and l: "2 * n < length (irqs c)" and e: "irqs c ! (2 * n) = [RisingEdge OffButton]"
    using assms(3) by (simp_all add: abort_pressed_at_def)
  show "n < ?N + num_steps \<longrightarrow>
           (\<exists>b. charge_cycle c = Inr b \<and> ends_black (frames_until n c) b)"
  proof (intro impI, cases "n < ?N")
    case True
    then show "\<exists>b. charge_cycle c = Inr b \<and> ends_black (frames_until n c) b"
      using abort_in_charge [OF assms True] by (simp add: frames_until_def Let_def)
  next
    case False
    assume b: "n < ?N + num_steps"
    define j where "j = n - ?N"
    have n: "n = ?N + j" and j: "j < num_steps" using False b by (simp_all add: j_def)
    have q1: "quiet (2 * ?N + 2 * j) c" using q by (simp add: n)
    obtain c1 where c1: "charge_up [0..<?N] c = Inr (False, c1)" "quiet (2 * j) c1"
        "costume_ok c1" "display c1 = display ?F" "irqs c1 = drop (2 * ?N) (irqs c)"
        "off_button_irq (state_manager c1)"
      using charge_phase_quiet [OF assms(1,2) q1] a by blast
    have l1: "2 * ?N + 2 * j < length (irqs c)" using l by (simp add: n)
    have e1: "irqs c ! (2 * ?N + 2 * j) = [RisingEdge OffButton]" using e by (simp add: n)
    have "\<exists>b. charge_cycle c = Inr b \<and>
           ends_black (fade_frames [0..<j] (map step_size (intensities ?F)) ?F) b"
      using c1(1,3,4,2,6,5) l1 e1 j by (rule tail_abort_in_fade)
    then show "\<exists>b. charge_cycle c = Inr b \<and> ends_black (frames_until n c) b"
      using False b by (simp add: frames_until_def Let_def j_def)
  qed
  show "?N + num_steps \<le> n \<and> n < ?N + num_steps + 5 \<longrightarrow>
           (\<exists>b. charge_cycle c = Inr (clear_charge_requested (deliver_irqs b)) \<and>
                ends_black (frames_until n c) b)"
  proof (intro impI)
    assume b: "?N + num_steps \<le> n \<and> n < ?N + num_steps + 5"
    define r where "r = n - ?N - num_steps"
    have n: "n = ?N + num_steps + r" and r: "r < 5" using b unfolding r_def by linarith+
    have "2 * n = 2 * ?N + (2 * num_steps + 2 * r)" using n by simp
    then have q1: "quiet (2 * ?N + (2 * num_steps + 2 * r)) c" using q by simp
    obtain c1 where c1: "charge_up [0..<?N] c = Inr (False, c1)"
        "quiet (2 * num_steps + 2 * r) c1"
        "costume_ok c1" "display c1 = display ?F" "irqs c1 = drop (2 * ?N) (irqs c)"
        "off_button_irq (state_manager c1)"
      using charge_phase_quiet [OF assms(1,2) q1] a by blast
    have l1: "2 * ?N + 2 * num_steps + 2 * r < length (irqs c)" using l by (simp add: n)
    have e1: "irqs c ! (2 * ?N + 2 * num_steps + 2 * r) = [RisingEdge OffButton]"
      using e by (simp add: n)
    have "\<exists>b. charge_cycle c = Inr (clear_charge_requested (deliver_irqs b)) \<and>
           ends_black (resonate_frames [0..<r] (starting_point_for_resonating ?F) resonating_values
             (show_frame (replicate (num_leds ?F) target_value)
                (fade_frames [0..<num_steps] (map step_size (intensities ?F)) ?F))) b"
      using c1(1,3,4,2,6,5) l1 e1 r by (rule tail_abort_in_resonate)
    then show "\<exists>b. charge_cycle c = Inr (clear_charge_requested (deliver_irqs b)) \<and>
                ends_black (frames_until n c) b"
      using b by (simp add: frames_until_def Let_def r_def)
  qed
qed

lemma length_resonating_values: "length resonating_values = 40"
  by (simp add: resonating_values_def resonating_value_modifiers_def)

lemma frames_until_count:
  "length (written (frames_until n c)) =
     length (written c) +
       (if n < num_leds c * num_times_to_charge + num_steps then n
        else num_leds c * num_times_to_charge + num_steps + 1
               + 40 * (n - num_leds c * num_times_to_charge - num_steps))"
  by (simp add: frames_until_def Let_def written_charge_frames written_fade_frames
      written_resonate_frames length_concat_replicate length_resonating_values)

subsection \<open>A cycle that runs to its end\<close>

lemma tail_complete:
  assumes cu: "charge_up [0..<num_leds c * num_times_to_charge] c = Inr (False, c1)"
    and ok: "costume_ok c1" and d: "display c1 = display p"
    and q: "quiet (2 * num_steps + 10) c1"
  shows "\<exists>c4. charge_cycle c = Inr (clear_charge_requested (deliver_irqs c4)) \<and>
           costume_ok c4 \<and> quiet 0 c4 \<and>
           display c4 = display (resonate_frames [0..<5] (starting_point_for_resonating p)
             resonating_values
             (show_frame (replicate (num_leds p) target_value)
                (fade_frames [0..<num_steps] (map step_size (intensities p)) p))) \<and>
           irqs c4 = drop (2 * num_steps + 10) (irqs c1)"
proof -
  let ?t = "show_frame (replicate (num_leds p) target_value)
                (fade_frames [0..<num_steps] (map step_size (intensities p)) p)"
  obtain c3 where c3: "charge_cycle c =
             (case resonate [0..<5] (starting_point_for_resonating p) resonating_values c3 of
                Inl e \<Rightarrow> Inl e
              | Inr c4 \<Rightarrow> Inr (clear_charge_requested (deliver_irqs c4)))"
      "costume_ok c3" "quiet 10 c3" "display c3 = display ?t"
      "irqs c3 = drop (2 * num_steps) (irqs c1)"
    using tail_to_resonate [OF cu ok d q] by blast
  have s: "0 \<le> starting_point_for_resonating p"
    using ok display_eqD(11) [OF d] by (simp add: costume_ok_def)
  have q': "quiet (2 * length [0..<5] + 0) c3" using c3(3) by simp
  obtain c4 where c4: "\<forall>ys. resonate ([0..<5] @ ys) (starting_point_for_resonating p)
                            resonating_values c3
                          = resonate ys (starting_point_for_resonating p) resonating_values c4"
      "display c4 = display (resonate_frames [0..<5] (starting_point_for_resonating p)
                      resonating_values c3)"
      "irqs c4 = drop (2 * length [0..<5]) (irqs c3)" "costume_ok c4" "quiet 0 c4"
    using resonate_quiet [OF q' c3(2) s in_range_resonating_values] by blast
  have rs: "resonate [0..<5] (starting_point_for_resonating p) resonating_values c3 = Inr c4"
    using c4(1) [rule_format, of "[]"] by simp
  have d4: "display c4 = display (resonate_frames [0..<5] (starting_point_for_resonating p)
                      resonating_values ?t)"
    using c4(2) display_resonate_frames [OF c3(4), of "[0..<5]"
        "starting_point_for_resonating p" resonating_values] by simp
  have i4: "irqs c4 = drop (2 * num_steps + 10) (irqs c1)"
    using c4(3) c3(5) by (simp add: add.commute)
  show ?thesis
    using c3(1) rs c4(4,5) d4 i4 by (intro exI [of _ c4]) simp
qed

lemma frames_until_end:
  "frames_until (num_leds c * num_times_to_charge + num_steps + 5) c
     = resonate_frames [0..<5] (starting_point_for_resonating c) resonating_values
         (show_frame (replicate (num_leds c) target_value)
            (fade_frames [0..<num_steps]
               (map step_size (intensities (charge_frames [0..<num_leds c * num_times_to_charge] c)))
               (charge_frames [0..<num_leds c * num_times_to_charge] c)))"
  by (simp add: frames_until_def Let_def)

lemma cycle_quiet_from:
  assumes cu: "charge_up [0..<num_leds c * num_times_to_charge] c = Inr (False, c1)"
    and ok: "costume_ok c1" and d: "display c1 = display (charge_frames [0..<num_leds p * num_times_to_charge] p)"
    and q: "quiet (2 * num_steps + 10) c1"
  shows "\<exists>c4. charge_cycle c = Inr (clear_charge_requested (deliver_irqs c4)) \<and>
           costume_ok c4 \<and> quiet 0 c4 \<and>
           display c4 = display (frames_until (num_leds p * num_times_to_charge + num_steps + 5) p) \<and>
           irqs c4 = drop (2 * num_steps + 10) (irqs c1)"
  using tail_complete [OF cu ok d q] by (simp add: frames_until_end)

lemma cycle_quiet:
  assumes "costume_ok c" and "0 < num_leds c"
    and "quiet (2 * (num_leds c * num_times_to_charge + num_steps + 5)) c"
  shows "\<exists>c4. charge_cycle c = Inr (clear_charge_requested (deliver_irqs c4)) \<and>
           costume_ok c4 \<and> quiet 0 c4 \<and>
           display c4 = display (frames_until (num_leds c * num_times_to_charge + num_steps + 5) c) \<and>
           irqs c4 = drop (2 * (num_leds c * num_times_to_charge + num_steps + 5)) (irqs c)"
proof -
  let ?N = "num_leds c * num_times_to_charge"
  have e: "2 * (?N + num_steps + 5) = 2 * ?N + (2 * num_steps + 10)" by simp
  have q: "quiet (2 * ?N + (2 * num_steps + 10)) c" using assms(3) by (simp only: e)
  obtain c1 where c1: "charge_up [0..<?N] c = Inr (False, c1)" "quiet (2 * num_steps + 10) c1"
      "costume_ok c1" "display c1 = display (charge_frames [0..<?N] c)"
      "irqs c1 = drop (2 * ?N) (irqs c)"
    using charge_phase_quiet [OF assms(1,2) q] by blast
  obtain c4 where c4: "charge_cycle c = Inr (clear_charge_requested (deliver_irqs c4))"
      "costume_ok c4" "display c4 = display (frames_until (?N + num_steps + 5) c)"
      "irqs c4 = drop (2 * num_steps + 10) (irqs c1)" "quiet 0 c4"
    using cycle_quiet_from [OF c1(1,3,4,2)] by blast
  have "irqs c4 = drop (2 * ?N + (2 * num_steps + 10)) (irqs c)"
    using c4(4) c1(5) by (simp add: add.commute)
  then have "irqs c4 = drop (2 * (?N + num_steps + 5)) (irqs c)"
    by (simp only: e)
  then show ?thesis using c4(1,2,3,5) by blast
qed

lemma toggled_views [simp]:
  "irqs (toggled d) = irqs d"
  "starting_point_for_resonating (toggled d) = starting_point_for_resonating d"
  by (simp_all add: toggled_def flip_mode_def starting_point_for_resonating_def)

lemma cycle_toggle_then_quiet:
  assumes ok: "costume_ok c" and n: "0 < num_leds c"
    and na: "\<not> abort_requested (state_manager (deliver_irqs c))"
    and t: "toggle_good_evil_requested (state_manager (deliver_irqs c))"
    and q: "quiet (2 * (num_leds c * num_times_to_charge + num_steps + 5))
              (dismiss_abort (deliver_irqs (toggled (deliver_irqs c))))"
  shows "\<exists>c4. charge_cycle c = Inr (clear_charge_requested (deliver_irqs c4)) \<and>
           costume_ok c4 \<and> quiet 0 c4 \<and>
           display c4 = display (frames_until (num_leds c * num_times_to_charge + num_steps + 5)
                                   (toggled (deliver_irqs c))) \<and>
           irqs c4 = drop (2 * (num_leds c * num_times_to_charge + num_steps + 5)) (irqs c)"
proof -
  let ?N = "num_leds c * num_times_to_charge"
  let ?t = "toggled (deliver_irqs c)"
  let ?c1 = "dismiss_abort (deliver_irqs ?t)"
  let ?c2 = "show_frame (wave_value 0 ?c1 # butlast (intensities ?c1)) ?c1"
  obtain m where m: "?N = Suc m"
    using n by (cases ?N) (simp_all add: num_times_to_charge_def)
  have u: "[0..<?N] = 0 # [1..<Suc m]" unfolding m by (simp add: upt_rec)
  have lu: "length [1..<Suc m] = m" by simp
  have rf: "refresh_and_check_state c = Inr (True, ?c1)"
    using ok na t by (rule refresh_toggle)
  have okt: "costume_ok ?t" using ok by (intro costume_ok_toggled) simp
  have d1: "display ?c1 = display ?t" by simp
  have ok1: "costume_ok ?c1" and n1: "0 < num_leds ?c1"
    using okt n by simp_all
  have f: "charge_frame 0 ?c1 = Inr ?c2"
    using n1 ok1 by (rule charge_frame_ok)
  have ok2: "costume_ok ?c2" and n2: "0 < num_leds ?c2"
    using costume_ok_charge_step [OF n1 ok1, of 0] n1 by simp_all
  have e: "2 * (?N + num_steps + 5) = 2 * length [1..<Suc m] + (2 * num_steps + 10) + 2"
    by (simp add: m)
  have "quiet (2 * length [1..<Suc m] + (2 * num_steps + 10) + 2) ?c1"
    using q by (simp only: e)
  then have "quiet (2 * length [1..<Suc m] + (2 * num_steps + 10)) ?c1"
    by (rule quiet_less)
  then have q2: "quiet (2 * length [1..<Suc m] + (2 * num_steps + 10)) ?c2"
    by simp
  obtain c3 where c3: "\<forall>ys. charge_up ([1..<Suc m] @ ys) ?c2 = charge_up ys c3"
      "quiet (2 * num_steps + 10) c3" "costume_ok c3"
      "display c3 = display (charge_frames [1..<Suc m] ?c2)"
      "irqs c3 = drop (2 * length [1..<Suc m]) (irqs ?c2)"
    using charge_up_quiet [OF q2 ok2 n2] by blast
  have "charge_up [0..<?N] c = charge_up [1..<Suc m] ?c2"
    by (simp add: u rf f)
  then have cu: "charge_up [0..<?N] c = Inr (False, c3)"
    using c3(1) [rule_format, of "[]"] by simp
  have "display ?c2 = display (show_frame (wave_value 0 ?t # butlast (intensities ?t)) ?t)"
    using display_eqD(8,12,13) [OF d1] by simp
  then have "display (charge_frames [1..<Suc m] ?c2)
      = display (charge_frames [1..<Suc m] (show_frame (wave_value 0 ?t # butlast (intensities ?t)) ?t))"
    by (rule display_charge_frames)
  then have d3: "display c3 = display (charge_frames [0..<num_leds ?t * num_times_to_charge] ?t)"
    using c3(4) u by simp
  obtain c4 where c4: "charge_cycle c = Inr (clear_charge_requested (deliver_irqs c4))"
      "costume_ok c4"
      "display c4 = display (frames_until (num_leds ?t * num_times_to_charge + num_steps + 5) ?t)"
      "quiet 0 c4" "irqs c4 = drop (2 * num_steps + 10) (irqs c3)"
    using cycle_quiet_from [OF cu c3(3) d3 c3(2)] by blast
  have "irqs ?c2 = drop 2 (irqs c)"
    by (simp add: numeral_2_eq_2 drop_Suc drop_tl)
  then have "irqs c3 = drop (2 * m) (drop 2 (irqs c))"
    using c3(5) by (simp only: lu)
  then have "irqs c4 = drop (2 * num_steps + 10) (drop (2 * m) (drop 2 (irqs c)))"
    using c4(5) by (simp only:)
  then have "irqs c4 = drop (2 * num_steps + 10 + (2 * m + 2)) (irqs c)"
    by (simp only: drop_drop)
  moreover have "2 * num_steps + 10 + (2 * m + 2) = 2 * (?N + num_steps + 5)"
    by (simp add: m)
  ultimately have i4: "irqs c4 = drop (2 * (?N + num_steps + 5)) (irqs c)"
    by (simp only:)
  show ?thesis
    using c4(1-4) i4 by (intro exI [of _ c4]) simp
qed

lemma intensities_resonate_frames:
  "ks \<noteq> [] \<Longrightarrow> vals \<noteq> [] \<Longrightarrow>
   intensities (resonate_frames ks start vals c)
     = resonate_intensities start (last vals) (intensities c)"
proof (induction ks arbitrary: c)
  case Nil
  then show ?case by simp
next
  case (Cons k ks)
  show ?case
  proof (cases "ks = []")
    case True
    then show ?thesis using Cons.prems(2) by (simp add: intensities_resonate_pass)
  next
    case False
    then show ?thesis
      using Cons.IH [OF False Cons.prems(2)] Cons.prems(2)
      by (simp add: intensities_resonate_pass)
  qed
qed

lemma intensities_frames_until_end:
  assumes "costume_ok c" and "0 < num_leds c"
  shows "intensities (frames_until (num_leds c * num_times_to_charge + num_steps + 5) c)
     = resonate_intensities (starting_point_for_resonating c) 16 (replicate (num_leds c) 15)"
proof -
  let ?N = "num_leds c * num_times_to_charge"
  let ?F = "charge_frames [0..<?N] c"
  let ?D = "fade_frames [0..<num_steps] (map step_size (intensities ?F)) ?F"
  have okF: "costume_ok ?F" using assms(2,1) by (rule costume_ok_charge_frames)
  have okD: "costume_ok ?D"
    using okF costume_ok_length [OF okF] small_steps_step_size [OF costume_ok_in_range [OF okF]]
    by (intro costume_ok_fade_frames) simp_all
  have "length (replicate (num_leds c) target_value) = length (pixels ?D)"
    using okD by (simp add: costume_ok_def sized_def)
  then have i: "intensities (show_frame (replicate (num_leds c) target_value) ?D)
      = replicate (num_leds c) 15"
    by (simp add: intensities_show_frame target_value_def)
  have l: "last resonating_values = 16"
    by (simp add: resonating_values_def resonating_value_modifiers_def target_value_def)
  have v: "resonating_values \<noteq> []"
    by (simp add: resonating_values_def resonating_value_modifiers_def)
  have k: "[0..<5] \<noteq> []" by simp
  show ?thesis
    unfolding frames_until_end
    by (simp only: intensities_resonate_frames [OF k v] i l)
qed

lemma state_manager_frames_until [simp]:
  "state_manager (frames_until n c) = state_manager c"
  by (simp add: frames_until_def Let_def)

subsection \<open>Iterations of the main loop that start a cycle\<close>

lemma cycle_start_fields [simp]:
  "state_manager (cycle_start c) = (state_manager (deliver_irqs c))\<lparr>charge_requested := False\<rparr>"
  "irqs (cycle_start c) = tl (irqs c)"
  "num_leds (cycle_start c) = num_leds c"
  "written (cycle_start c) = written c"
  by (simp_all add: cycle_start_def clear_charge_requested_def)

lemma display_cycle_start [simp]: "display (cycle_start c) = display c"
  by (simp add: cycle_start_def)

lemma cycle_start_views [simp]:
  "costume_ok (cycle_start c) = costume_ok c"
  "sized (cycle_start c) = sized c"
  "intensities (cycle_start c) = intensities c"
  "starting_point_for_resonating (cycle_start c) = starting_point_for_resonating c"
  using display_eqD(8,9,10,11) [OF display_cycle_start [of c]] by simp_all

lemma costume_ok_aborted: "costume_ok d \<Longrightarrow> costume_ok (turned_off d)"
  by (intro costume_ok_turned_off) (simp_all add: costume_ok_def)

lemma main_loop_iteration_cycle:
  assumes "charge_requested (state_manager (deliver_irqs c))"
  shows "main_loop_iteration c =
     (case charge_cycle (cycle_start c) of
        Inl (e, c') \<Rightarrow> print_line (EXCEPTION e) c'
      | Inr c' \<Rightarrow> c')"
  using assms by (simp add: main_loop_iteration_def Let_def cycle_start_def)

lemma main_loop_iteration_aborted:
  assumes "sized c" and "0 < num_leds c"
    and "charge_requested (state_manager (deliver_irqs c))"
    and "abort_requested (state_manager (deliver_irqs (cycle_start c)))"
  shows "main_loop_iteration c = turned_off (deliver_irqs (cycle_start c))"
proof -
  have "charge_cycle (cycle_start c) = Inr (turned_off (deliver_irqs (cycle_start c)))"
    using assms(1,2,4) by (intro charge_cycle_abort_at_first_poll) simp_all
  then show ?thesis
    using main_loop_iteration_cycle [OF assms(3)] by simp
qed

lemma turned_off_fields [simp]:
  "state_manager (turned_off d)
     = (state_manager d)\<lparr>abort_requested := False, charge_requested := False\<rparr>"
  "irqs (turned_off d) = irqs d"
  by (simp_all add: turned_off_def)

lemma starting_point_turned_off [simp]:
  "starting_point_for_resonating (turned_off d) = starting_point_for_resonating d"
  by (simp add: turned_off_def starting_point_for_resonating_def)

lemma state_manager_deliver_group:
  "irqs c = g # rest \<Longrightarrow> state_manager (deliver_irqs c) = snd (on_events g (state_manager c))"
  by (simp add: state_manager_deliver_irqs)

lemma abort_press_in_cycle_ok:
  "costume_ok (abort_press_in_cycle n)" "0 < num_leds (abort_press_in_cycle n)"
  "abort_pressed_at n (abort_press_in_cycle n)"
proof -
  let ?c = "new_costume ([RisingEdge ChargeButton] # replicate (2 * n) [] @ [[RisingEdge OffButton]])"
  show "costume_ok (abort_press_in_cycle n)" "0 < num_leds (abort_press_in_cycle n)"
    by (simp_all add: abort_press_in_cycle_def costume_ok_new_costume)
  have s: "state_manager (deliver_irqs ?c)
      = new_state_manager\<lparr>charge_button_irq := False, charge_requested := True,
                            timer := Some ChargeButton\<rparr>"
    by (simp add: state_manager_deliver_irqs handler_charge_def)
  have i: "irqs (abort_press_in_cycle n) = replicate (2 * n) [] @ [[RisingEdge OffButton]]"
    by (simp add: abort_press_in_cycle_def)
  have "list_all (list_all harmless) (replicate (2 * n) [])"
    by (simp add: list_all_iff)
  then show "abort_pressed_at n (abort_press_in_cycle n)"
    unfolding abort_pressed_at_def quiet_def i
    by (simp add: abort_press_in_cycle_def s nth_append)
qed

lemma charge_frames_snoc:
  "charge_frames (ks @ [k]) c =
     show_frame (wave_value k (charge_frames ks c) # butlast (intensities (charge_frames ks c)))
       (charge_frames ks c)"
  by (induction ks arbitrary: c) simp_all

lemma wave_value_charge_frames:
  "costume_ok c \<Longrightarrow> 0 < num_leds c \<Longrightarrow>
   wave_value k (charge_frames ks c) = wave_value k c"
proof (induction ks arbitrary: c)
  case Nil
  then show ?case by simp
next
  case (Cons j ks)
  let ?vs = "wave_value j c # butlast (intensities c)"
  have l: "length ?vs = length (pixels c)" and p: "0 < length (pixels c)"
    using in_range_charge [OF Cons.prems(2,1), of j] Cons.prems
    by (simp_all add: costume_ok_def sized_def)
  have "wave_value k (show_frame ?vs c) = wave_value k c"
    using pixel_x_show_frame [OF l p] by (simp add: wave_value_def this_shift_def)
  moreover have "costume_ok (show_frame ?vs c)" "0 < num_leds (show_frame ?vs c)"
    using costume_ok_charge_step [OF Cons.prems(2,1), of j] Cons.prems(2) by simp_all
  ultimately show ?case
    using Cons.IH [of "show_frame ?vs c"] by simp
qed

lemma wave_value_12_new_costume: "wave_value 12 (new_costume evs) = 127"
proof -
  have "pixel_x (pixels (new_costume evs) ! 0) = - pi / 2"
    by (simp add: new_costume_def new_pixel_def initial_offset_def nth_map [of 0 "[0..<144]"]
        del: upt_Suc)
  moreover have "this_shift 12 (new_costume evs) = pi / 2"
    by (simp add: this_shift_def)
  ultimately have "pixel_x (pixels (new_costume evs) ! 0) - this_shift 12 (new_costume evs) = - pi"
    by simp
  then have "wave_value 12 (new_costume evs) = py_int (255 / 2)"
    by (simp only: wave_value_def) (simp add: amplitude_def max_val_def)
  then show ?thesis by (simp add: py_int_def)
qed

lemma frame_before_abort_13:
  "hd (intensities (frames_until 13 (abort_press_in_cycle 13))) = 127"
proof -
  let ?c = "abort_press_in_cycle 13"
  let ?p = "charge_frames [0..<12] ?c"
  have ok: "costume_ok ?c" and n: "0 < num_leds ?c"
    by (rule abort_press_in_cycle_ok)+
  have okp: "costume_ok ?p" using n ok by (rule costume_ok_charge_frames)
  have "[0..<13] = [0..<12] @ [12]" by (simp add: upt_rec)
  then have f: "frames_until 13 ?c
      = show_frame (wave_value 12 ?p # butlast (intensities ?p)) ?p"
    using charge_frames_snoc [of "[0..<12]" 12 ?c]
    by (simp add: frames_until_def Let_def abort_press_in_cycle_def num_times_to_charge_def)
  have np: "0 < num_leds ?p" using n by simp
  have l: "length (wave_value 12 ?p # butlast (intensities ?p)) = length (pixels ?p)"
    using in_range_charge [OF np okp, of 12] okp by (simp add: costume_ok_def sized_def)
  have "display ?c = display (new_costume
          ([RisingEdge ChargeButton] # replicate (2 * 13) [] @ [[RisingEdge OffButton]]))"
    by (simp add: abort_press_in_cycle_def)
  then have "wave_value 12 ?c = 127"
    using display_eqD(12) wave_value_12_new_costume by metis
  then have "wave_value 12 ?p = 127"
    using wave_value_charge_frames [OF ok n, of 12 "[0..<12]"] by simp
  then show ?thesis
    unfolding f using intensities_show_frame [OF l] by simp
qed

subsection \<open>Two runs that differ in one press of the moral button\<close>

lemma run_without_toggle:
  "intensities (run_main_loop 3 (new_costume presses_without_toggle)) = replicate 144 0 \<and>
   written (run_main_loop 3 (new_costume presses_without_toggle))
     = [replicate 144 (0, 0, 0), replicate 144 (0, 0, 0)] \<and>
   written (run_main_loop 2 (new_costume presses_without_toggle)) = [replicate 144 (0, 0, 0)] \<and>
   off_button_irq (state_manager (run_main_loop 2 (new_costume presses_without_toggle)))"
proof -
  define b0 where "b0 = new_costume presses_without_toggle"
  define b1 where "b1 = main_loop_iteration b0"
  define b2 where "b2 = main_loop_iteration b1"
  define b3 where "b3 = main_loop_iteration b2"
  have i0: "irqs b0 = [RisingEdge OffButton] # [[TimerExpiry, RisingEdge ChargeButton], [],
                        [TimerExpiry, RisingEdge ChargeButton], [RisingEdge OffButton]]"
    by (simp add: b0_def presses_without_toggle_def)
  have s0: "state_manager (deliver_irqs b0)
      = new_state_manager\<lparr>off_button_irq := False, abort_requested := True,
                            timer := Some OffButton\<rparr>"
    using state_manager_deliver_group [OF i0]
    by (simp add: handler_should_abort_def b0_def)
  have b1: "b1 = print_line (InMainLoop False False True) (deliver_irqs b0)"
    using main_loop_iteration_idle [of b0] by (simp add: s0 b1_def)
  have i1: "irqs b1 = [TimerExpiry, RisingEdge ChargeButton] # [[],
                        [TimerExpiry, RisingEdge ChargeButton], [RisingEdge OffButton]]"
    by (simp add: b1 i0)
  have sm1: "state_manager b1
      = new_state_manager\<lparr>off_button_irq := False, abort_requested := True,
                            timer := Some OffButton\<rparr>"
    by (simp add: b1 s0)
  have ok0: "costume_ok b0" by (simp add: b0_def costume_ok_new_costume)
  have d1: "display b1 = display b0" by (simp add: b1)
  have ok1: "costume_ok b1" using ok0 display_eqD(9) [OF d1] by simp
  have n1: "num_leds b1 = 144" using display_eqD(1) [OF d1] by (simp add: b0_def)
  have w1: "written b1 = []" using display_eqD(7) [OF d1] by (simp add: b0_def)
  have s1: "state_manager (deliver_irqs b1)
      = new_state_manager\<lparr>off_button_irq := True, abort_requested := True, timer := Some ChargeButton,
                            charge_button_irq := False, charge_requested := True\<rparr>"
    by (simp add: state_manager_deliver_group [OF i1] sm1 handler_charge_def
        initialize_off_button_def)
  have ic1: "irqs (cycle_start b1) = [] # [[TimerExpiry, RisingEdge ChargeButton],
                                          [RisingEdge OffButton]]"
    by (simp add: i1)
  have sc1: "state_manager (deliver_irqs (cycle_start b1))
      = new_state_manager\<lparr>off_button_irq := True, abort_requested := True, timer := Some ChargeButton,
                            charge_button_irq := False, charge_requested := False\<rparr>"
    by (simp add: state_manager_deliver_group [OF ic1] s1)
  have b2: "b2 = turned_off (deliver_irqs (cycle_start b1))"
    unfolding b2_def using ok1
    by (intro main_loop_iteration_aborted) (simp_all add: costume_ok_def n1 s1 sc1)
  have i2: "irqs b2 = [TimerExpiry, RisingEdge ChargeButton] # [[RisingEdge OffButton]]"
    by (simp add: b2 i1)
  have sm2: "state_manager b2
      = new_state_manager\<lparr>off_button_irq := True, abort_requested := False, timer := Some ChargeButton,
                            charge_button_irq := False, charge_requested := False\<rparr>"
    by (simp add: b2 sc1)
  have sz1: "sized (deliver_irqs (cycle_start b1))" using ok1 by (simp add: costume_ok_def)
  have w2: "written b2 = [replicate 144 (0, 0, 0)]"
    using turned_off_views(2) [OF sz1] by (simp add: b2 w1 n1)
  have ok2: "costume_ok b2"
    unfolding b2 using ok1 by (intro costume_ok_aborted) simp
  have n2: "num_leds b2 = 144" by (simp add: b2 n1)
  have s2: "state_manager (deliver_irqs b2)
      = new_state_manager\<lparr>off_button_irq := True, abort_requested := False, timer := Some ChargeButton,
                            charge_button_irq := False, charge_requested := True\<rparr>"
    by (simp add: state_manager_deliver_group [OF i2] sm2 handler_charge_def
        initialize_charge_button_def)
  have ic2: "irqs (cycle_start b2) = [RisingEdge OffButton] # []"
    by (simp add: i2)
  have sc2: "abort_requested (state_manager (deliver_irqs (cycle_start b2)))"
    by (simp add: state_manager_deliver_group [OF ic2] s2 handler_should_abort_def)
  have b3: "b3 = turned_off (deliver_irqs (cycle_start b2))"
    unfolding b3_def using ok2
    by (intro main_loop_iteration_aborted) (simp_all add: costume_ok_def n2 s2 sc2)
  have sz2: "sized (deliver_irqs (cycle_start b2))" using ok2 by (simp add: costume_ok_def)
  have w3: "written b3 = [replicate 144 (0, 0, 0), replicate 144 (0, 0, 0)]"
    using turned_off_views(2) [OF sz2] by (simp add: b3 w2 n2)
  have v3: "intensities b3 = replicate 144 0"
    using turned_off_views(1) [OF sz2] by (simp add: b3 n2)
  have r3: "run_main_loop 3 b0 = b3"
    by (simp add: numeral_3_eq_3 b3_def b2_def b1_def)
  have r2: "run_main_loop 2 b0 = b2"
    by (simp add: numeral_2_eq_2 b2_def b1_def)
  show ?thesis
    using v3 w3 w2 sm2 unfolding r3 [unfolded b0_def] r2 [unfolded b0_def] by simp
qed

lemma run_with_toggle:
  "intensities (run_main_loop 3 (new_costume presses_with_toggle))
     = replicate 97 15 @ replicate 47 16 \<and>
   length (written (run_main_loop 3 (new_costume presses_with_toggle))) = 511 \<and>
   evil (state_manager (run_main_loop 3 (new_costume presses_with_toggle))) \<and>
   \<not> toggle_good_evil_requested
       (state_manager (run_main_loop 3 (new_costume presses_with_toggle))) \<and>
   written (run_main_loop 2 (new_costume presses_with_toggle)) = [replicate 144 (0, 0, 0)] \<and>
   \<not> off_button_irq (state_manager (run_main_loop 2 (new_costume presses_with_toggle)))"
proof -
  define a0 where "a0 = new_costume presses_with_toggle"
  define a1 where "a1 = main_loop_iteration a0"
  define a2 where "a2 = main_loop_iteration a1"
  define a3 where "a3 = main_loop_iteration a2"
  have i0: "irqs a0 = [RisingEdge OffButton, RisingEdge GoodEvilButton]
                      # [[TimerExpiry, RisingEdge ChargeButton], [],
                         [TimerExpiry, RisingEdge ChargeButton], [RisingEdge OffButton]]"
    by (simp add: a0_def presses_with_toggle_def)
  have s0: "state_manager (deliver_irqs a0)
      = new_state_manager\<lparr>off_button_irq := False, abort_requested := True,
                            good_evil_button_irq := False, toggle_good_evil_requested := True,
                            timer := Some GoodEvilButton\<rparr>"
    using state_manager_deliver_group [OF i0]
    by (simp add: handler_should_abort_def handler_trigger_good_evil_def a0_def)
  have a1: "a1 = print_line (InMainLoop False True True) (deliver_irqs a0)"
    using main_loop_iteration_idle [of a0] by (simp add: s0 a1_def)
  have i1: "irqs a1 = [TimerExpiry, RisingEdge ChargeButton] # [[],
                        [TimerExpiry, RisingEdge ChargeButton], [RisingEdge OffButton]]"
    by (simp add: a1 i0)
  have sm1: "state_manager a1
      = new_state_manager\<lparr>off_button_irq := False, abort_requested := True,
                            good_evil_button_irq := False, toggle_good_evil_requested := True,
                            timer := Some GoodEvilButton\<rparr>"
    by (simp add: a1 s0)
  have ok0: "costume_ok a0" by (simp add: a0_def costume_ok_new_costume)
  have d1: "display a1 = display a0" by (simp add: a1)
  have ok1: "costume_ok a1" using ok0 display_eqD(9) [OF d1] by simp
  have n1: "num_leds a1 = 144" using display_eqD(1) [OF d1] by (simp add: a0_def)
  have w1: "written a1 = []" using display_eqD(7) [OF d1] by (simp add: a0_def)
  have p1: "starting_point_for_resonating a1 = 97"
    using display_eqD(11) [OF d1] by (simp add: a0_def)
  have s1: "state_manager (deliver_irqs a1)
      = new_state_manager\<lparr>off_button_irq := False, abort_requested := True,
                            good_evil_button_irq := True, toggle_good_evil_requested := True,
                            timer := Some ChargeButton,
                            charge_button_irq := False, charge_requested := True\<rparr>"
    by (simp add: state_manager_deliver_group [OF i1] sm1 handler_charge_def
        initialize_good_evil_button_def)
  have ic1: "irqs (cycle_start a1) = [] # [[TimerExpiry, RisingEdge ChargeButton],
                                          [RisingEdge OffButton]]"
    by (simp add: i1)
  have sc1: "state_manager (deliver_irqs (cycle_start a1))
      = new_state_manager\<lparr>off_button_irq := False, abort_requested := True,
                            good_evil_button_irq := True, toggle_good_evil_requested := True,
                            timer := Some ChargeButton,
                            charge_button_irq := False, charge_requested := False\<rparr>"
    by (simp add: state_manager_deliver_group [OF ic1] s1)
  have a2: "a2 = turned_off (deliver_irqs (cycle_start a1))"
    unfolding a2_def using ok1
    by (intro main_loop_iteration_aborted) (simp_all add: costume_ok_def n1 s1 sc1)
  have i2: "irqs a2 = [TimerExpiry, RisingEdge ChargeButton] # [[RisingEdge OffButton]]"
    by (simp add: a2 i1)
  have sm2: "state_manager a2
      = new_state_manager\<lparr>off_button_irq := False, abort_requested := False,
                            good_evil_button_irq := True, toggle_good_evil_requested := True,
                            timer := Some ChargeButton,
                            charge_button_irq := False, charge_requested := False\<rparr>"
    by (simp add: a2 sc1)
  have sz1: "sized (deliver_irqs (cycle_start a1))" using ok1 by (simp add: costume_ok_def)
  have w2: "written a2 = [replicate 144 (0, 0, 0)]"
    using turned_off_views(2) [OF sz1] by (simp add: a2 w1 n1)
  have ok2: "costume_ok a2"
    unfolding a2 using ok1 by (intro costume_ok_aborted) simp
  have n2: "num_leds a2 = 144" by (simp add: a2 n1)
  have p2: "starting_point_for_resonating a2 = 97"
    using p1 by (simp add: a2)
  have s2: "state_manager (deliver_irqs a2)
      = new_state_manager\<lparr>off_button_irq := False, abort_requested := False,
                            good_evil_button_irq := True, toggle_good_evil_requested := True,
                            timer := Some ChargeButton,
                            charge_button_irq := False, charge_requested := True\<rparr>"
    by (simp add: state_manager_deliver_group [OF i2] sm2 handler_charge_def
        initialize_charge_button_def)
  have ic2: "irqs (cycle_start a2) = [RisingEdge OffButton] # []"
    by (simp add: i2)
  define c where "c = cycle_start a2"
  define t where "t = toggled (deliver_irqs c)"
  have okc: "costume_ok c" and nc: "num_leds c = 144" and wc: "written c = [replicate 144 (0, 0, 0)]"
    using ok2 n2 w2 by (simp_all add: c_def)
  have ic: "irqs c = [RisingEdge OffButton] # []" using ic2 by (simp add: c_def)
  have sc: "state_manager (deliver_irqs c)
      = new_state_manager\<lparr>off_button_irq := False, abort_requested := False,
                            good_evil_button_irq := True, toggle_good_evil_requested := True,
                            timer := Some ChargeButton,
                            charge_button_irq := False, charge_requested := False\<rparr>"
    using state_manager_deliver_group [OF ic] by (simp add: c_def s2)
  have it: "irqs t = []" by (simp add: t_def ic)
  have st: "\<not> abort_requested (state_manager t)" "\<not> toggle_good_evil_requested (state_manager t)"
    "evil (state_manager t)"
    by (simp_all add: t_def toggled_def flip_mode_def sc)
  have "deliver_irqs t = t" using it by (rule deliver_irqs_nothing)
  then have q: "quiet (2 * (num_leds c * num_times_to_charge + num_steps + 5))
              (dismiss_abort (deliver_irqs t))"
    using st it by (simp add: quiet_def dismiss_abort_def)
  obtain c4 where c4: "charge_cycle c = Inr (clear_charge_requested (deliver_irqs c4))"
      "display c4 = display (frames_until (num_leds c * num_times_to_charge + num_steps + 5) t)"
      "quiet 0 c4"
      "irqs c4 = drop (2 * (num_leds c * num_times_to_charge + num_steps + 5)) (irqs c)"
    using cycle_toggle_then_quiet [OF okc _ _ _ q [unfolded t_def]]
    by (auto simp: nc sc t_def)
  have "deliver_irqs c4 = c4" using c4(4) ic by (intro deliver_irqs_nothing) simp
  then have g3: "\<not> toggle_good_evil_requested
                    (state_manager (clear_charge_requested (deliver_irqs c4)))"
    using c4(3) by (simp add: quiet_def clear_charge_requested_def)
  have a3: "a3 = clear_charge_requested (deliver_irqs c4)"
    using main_loop_iteration_cycle [of a2] c4(1) by (simp add: a3_def c_def s2)
  have okt: "costume_ok t" and nt: "num_leds t = 144"
    using okc nc by (simp_all add: t_def costume_ok_toggled)
  have pt: "starting_point_for_resonating t = 97"
    using p2 by (simp add: t_def c_def)
  have wt: "length (written t) = 2"
    by (simp add: t_def toggled_fields wc)
  have d3: "display a3 = display (frames_until (num_leds t * num_times_to_charge + num_steps + 5) t)"
    using c4(2) by (simp add: a3 nt nc)
  have v3: "intensities a3 = replicate 97 15 @ replicate 47 16"
    using display_eqD(8) [OF d3] intensities_frames_until_end [OF okt] nt pt
    by (simp add: resonate_intensities_def)
  have w3: "length (written a3) = 511"
    using display_eqD(7) [OF d3] frames_until_count [of "num_leds t * num_times_to_charge + num_steps + 5" t]
    by (simp add: nt wt num_times_to_charge_def num_steps_def)
  have e3: "evil (state_manager a3)"
    using display_eqD(6) [OF d3] st(3) by simp
  have r3: "run_main_loop 3 a0 = a3"
    by (simp add: numeral_3_eq_3 a3_def a2_def a1_def)
  have r2: "run_main_loop 2 a0 = a2"
    by (simp add: numeral_2_eq_2 a2_def a1_def)
  have g3': "\<not> toggle_good_evil_requested (state_manager a3)"
    unfolding a3 by (rule g3)
  show ?thesis
    using v3 w3 e3 g3' w2 sm2 unfolding r3 [unfolded a0_def] r2 [unfolded a0_def] by simp
qed

section \<open>Properties of the pixel colour model\<close>

text \<open>
  C7. For every intensity in 0..255 and either mode, \<open>set_pixel_intensity\<close> derives the
  channels (0, intensity, 0) when not evil and (intensity, 0, intensity) when evil, stores
  the intensity, and every channel it derives lies in 0..255.
\<close>

theorem set_pixel_intensity_channels:
  "0 \<le> v \<Longrightarrow> v \<le> 255 \<Longrightarrow>
   rgb (set_pixel_intensity v e p) = (if e then (v, 0, v) else (0, v, 0)) \<and>
   intensity (set_pixel_intensity v e p) = v \<and>
   channel_ok (red (set_pixel_intensity v e p)) \<and>
   channel_ok (green (set_pixel_intensity v e p)) \<and>
   channel_ok (blue (set_pixel_intensity v e p))"
  by (simp add: set_pixel_intensity_def rgb_def channel_ok_def)

theorem set_pixel_intensity_channels_witness:
  "(0::int) \<le> 200 \<and> (200::int) \<le> 255 \<and>
   rgb (set_pixel_intensity 200 True (new_pixel 0 0)) = (200, 0, 200) \<and>
   rgb (set_pixel_intensity 200 False (new_pixel 0 0)) = (0, 200, 0) \<and>
   channel_ok (red (set_pixel_intensity 200 True (new_pixel 0 0))) \<and>
   channel_ok (green (set_pixel_intensity 200 True (new_pixel 0 0))) \<and>
   channel_ok (blue (set_pixel_intensity 200 True (new_pixel 0 0)))"
  using set_pixel_intensity_channels [of 200 True "new_pixel 0 0"]
    set_pixel_intensity_channels [of 200 False "new_pixel 0 0"]
  by simp

section \<open>Properties of the debounce\<close>

text \<open>
  On one armed line, a burst of rising edges runs the handler once: the first edge disarms
  the line, and only a timer expiry re-arms it.
\<close>

lemma disarmed_charge_edges_lost:
  "\<not> charge_button_irq sm \<Longrightarrow>
   on_events (replicate k (RisingEdge ChargeButton)) sm = ([], sm)"
  by (induction k) simp_all

lemma charge_burst_runs_handler_once:
  "charge_button_irq sm \<Longrightarrow>
   on_events (replicate (Suc k) (RisingEdge ChargeButton)) sm =
     ([InHandlerCharge], snd (handler_charge sm))"
  by (simp add: handler_charge_def disarmed_charge_edges_lost)

text \<open>
  C5. The lines do not have a timer each: the three handlers initialise the one timer of
  the StateManager. After a rising edge on the charge line and then one on the moral line,
  before the timer expires, the pending callback is the moral line's alone; when the timer
  expires the moral line is re-armed and the charge line stays disarmed with no timer
  pending, so a later rising edge on the charge line sets no flag.
\<close>

theorem shared_timer_drops_rearm:
  "(let sm1 = snd (on_events [RisingEdge ChargeButton, RisingEdge GoodEvilButton]
                     new_state_manager);
        sm2 = snd (on_events [TimerExpiry] sm1);
        sm3 = snd (on_events [RisingEdge ChargeButton] (sm2\<lparr>charge_requested := False\<rparr>))
    in timer sm1 = Some GoodEvilButton \<and> \<not> charge_button_irq sm1 \<and>
       timer sm2 = None \<and> good_evil_button_irq sm2 \<and> \<not> charge_button_irq sm2 \<and>
       \<not> charge_requested sm3 \<and> sm3 = sm2\<lparr>charge_requested := False\<rparr>)"
  by (simp add: new_state_manager_def initialize_charge_button_def
      initialize_good_evil_button_def initialize_off_button_def handler_charge_def
      handler_trigger_good_evil_def)

section \<open>Properties of the charge cycle\<close>





text \<open>
  C4. The table of the resonate phase has 40 entries, not 39: 0 up to 20 and then 19 down
  to 1, each added to \<open>target_value\<close>. For the constructed costume the resonating pixels
  start at index 97. In a run without abort or toggle requests the five repetitions flush
  one frame per table entry, 200 in all; in each frame the pixels below the starting index
  keep their intensity and the pixels from it on show the table value.
\<close>

theorem resonate_phase_frames:
  assumes "calm c" and "costume_ok c"
  shows
   "resonating_value_modifiers = map int ([0..<21] @ rev [1..<20]) \<and>
    length resonating_value_modifiers = 40 \<and>
    resonating_values = map (\<lambda>x. target_value + x) resonating_value_modifiers \<and>
    starting_point_for_resonating (new_costume evs) = 97 \<and>
    round (real (num_leds (new_costume evs)) * (real (num_charging_waves (new_costume evs)) - 1)
             / real (num_charging_waves (new_costume evs))) + 1
      = starting_point_for_resonating (new_costume evs) \<and>
    (\<exists>c'. resonate [0..<5] (starting_point_for_resonating c) resonating_values c = Inr c' \<and>
       written c' = written c @ concat (replicate 5
          (map (\<lambda>v. frame_of (evil (state_manager c))
                  (take (nat (starting_point_for_resonating c)) (intensities c)
                   @ replicate (num_leds c - nat (starting_point_for_resonating c)) v))
             resonating_values)) \<and>
       length (written c') = length (written c) + 5 * 40)"
proof -
  let ?s = "starting_point_for_resonating c"
  have A: "resonating_value_modifiers = map int ([0..<21] @ rev [1..<20])"
    by (simp add: resonating_value_modifiers_def upt_rec numeral_eq_Suc)
  have B: "length resonating_value_modifiers = 40"
    by (simp add: resonating_value_modifiers_def)
  have s: "0 \<le> ?s" using assms(2) by (simp add: costume_ok_def)
  obtain c' where r: "resonate [0..<5] ?s resonating_values c = Inr c'"
      "display c' = display (resonate_frames [0..<5] ?s resonating_values c)"
    using resonate_calm [OF assms s in_range_resonating_values] by blast
  have w: "written c' = written c @ concat (replicate 5
          (map (\<lambda>v. frame_of (evil (state_manager c))
                  (take (nat ?s) (intensities c) @ replicate (num_leds c - nat ?s) v))
             resonating_values))"
    using display_eqD(7) [OF r(2)] costume_ok_length [OF assms(2)]
    by (simp add: written_resonate_frames resonate_intensities_def)
  have l: "length (written c') = length (written c) + 5 * 40"
    unfolding w by (simp add: length_concat_replicate resonating_values_def B)
  have R: "round (real (num_leds (new_costume evs))
               * (real (num_charging_waves (new_costume evs)) - 1)
             / real (num_charging_waves (new_costume evs))) + 1
      = starting_point_for_resonating (new_costume evs)"
    by simp
  show ?thesis
    using A B r(1) w l R by (simp add: resonating_values_def)
qed

theorem resonate_phase_frames_witness:
  "calm (new_costume []) \<and> costume_ok (new_costume []) \<and>
   (\<exists>c'. resonate [0..<5] (starting_point_for_resonating (new_costume [])) resonating_values
            (new_costume []) = Inr c' \<and>
       written c' = written (new_costume []) @ concat (replicate 5
          (map (\<lambda>v. frame_of (evil (state_manager (new_costume [])))
                  (take (nat (starting_point_for_resonating (new_costume [])))
                     (intensities (new_costume []))
                   @ replicate (num_leds (new_costume [])
                        - nat (starting_point_for_resonating (new_costume []))) v))
             resonating_values)) \<and>
       length (written c') = length (written (new_costume [])) + 5 * 40)"
proof -
  have h: "calm (new_costume [])" "costume_ok (new_costume [])"
    by (simp_all add: calm_new_costume costume_ok_new_costume)
  show ?thesis
    using h resonate_phase_frames [OF h, of "[]"] by blast
qed

theorem resonating_table_not_39: "length resonating_value_modifiers \<noteq> 39"
  by (simp add: resonating_value_modifiers_def)

text \<open>
  C6. A poll that finds the toggle request set flips the mode, derives the channels of every
  pixel anew from the intensity the pixel has, changes no intensity and flushes one frame
  (\<open>refresh_toggle\<close>, \<open>toggled_fields\<close>, \<open>intensities_toggled\<close>). But the intensities of the
  frames that follow are not always those of the run without the press of the moral button:
  its handler initialises the one timer the three handlers share, and a line whose
  re-arming was pending stays disarmed. Two runs of the constructed costume are compared,
  under hardware events that differ in one press of the moral button only, made while the
  re-arming of the abort line is pending. After two iterations of the main loop both have
  flushed the same single frame, but the abort line is disarmed in the run with the press
  and armed in the run without. In the third iteration the run with the press loses the
  press of the abort button, takes the toggle request and runs its cycle to the end: 511
  frames in all, the last intensities 15 and (from pixel 97 on) 16. The run without takes
  the abort request: two frames in all, every intensity 0.
\<close>

theorem toggle_press_loses_later_abort:
  "presses_without_toggle
     = map (filter (\<lambda>e. e \<noteq> RisingEdge GoodEvilButton)) presses_with_toggle \<and>
   written (run_main_loop 2 (new_costume presses_with_toggle)) = [replicate 144 (0, 0, 0)] \<and>
   written (run_main_loop 2 (new_costume presses_without_toggle)) = [replicate 144 (0, 0, 0)] \<and>
   \<not> off_button_irq (state_manager (run_main_loop 2 (new_costume presses_with_toggle))) \<and>
   off_button_irq (state_manager (run_main_loop 2 (new_costume presses_without_toggle))) \<and>
   evil (state_manager (run_main_loop 3 (new_costume presses_with_toggle))) \<and>
   \<not> toggle_good_evil_requested
       (state_manager (run_main_loop 3 (new_costume presses_with_toggle))) \<and>
   intensities (run_main_loop 3 (new_costume presses_with_toggle))
     = replicate 97 15 @ replicate 47 16 \<and>
   length (written (run_main_loop 3 (new_costume presses_with_toggle))) = 511 \<and>
   intensities (run_main_loop 3 (new_costume presses_without_toggle)) = replicate 144 0 \<and>
   written (run_main_loop 3 (new_costume presses_without_toggle))
     = [replicate 144 (0, 0, 0), replicate 144 (0, 0, 0)]"
proof -
  have "presses_without_toggle
     = map (filter (\<lambda>e. e \<noteq> RisingEdge GoodEvilButton)) presses_with_toggle"
    by (simp add: presses_without_toggle_def presses_with_toggle_def)
  then show ?thesis
    using run_with_toggle run_without_toggle by (intro conjI) simp_all
qed

text \<open>
  C1. The request flags are polled before every frame of the charge and fade phases, but
  in the resonate phase only once per repetition, before the run of table-entry frames
  (which reads no flag and lets no interrupt in), and the frame of the final pass is
  flushed without a poll: a cycle has \<open>2 \<times> num_leds + 20 + 5\<close> polls. Whenever a poll finds the
  abort request set, it sets every intensity to 0, flushes exactly one (black) frame and
  clears the abort and the charge request, and the loop of the phase ends at once, whatever
  iterations remain. So when the abort button is pressed as poll \<open>n\<close> of a cycle lets
  interrupts in, no poll before having found a request, the cycle flushes the frames that
  come before poll \<open>n\<close> (\<open>n\<close> of them in the charge and fade phases; all frames of the charge
  and fade phases, the frame of the final pass and 40 for each repetition done, in the
  resonate phase), then the black frame, and nothing more: no later frame and no later
  phase. After an abort in the resonate phase the last statement of the cycle still runs,
  which lets interrupts in and clears the charge request once more.
\<close>

theorem abort_at_poll:
  assumes "sized c" and "abort_requested (state_manager (deliver_irqs c))"
    and "0 < num_leds c"
    and "costume_ok q" and "0 \<le> start" and "in_range vals"
    and "costume_ok a" and "0 < num_leds a" and "abort_pressed_at n a"
  shows
   "refresh_and_check_state c = Inr (False, turned_off (deliver_irqs c)) \<and>
    charge_up (k # ks) c = Inr (True, turned_off (deliver_irqs c)) \<and>
    fade (k # ks) ss c = Inr (True, turned_off (deliver_irqs c)) \<and>
    resonate (k # ks) start vals c = Inr (turned_off (deliver_irqs c)) \<and>
    charge_cycle c = Inr (turned_off (deliver_irqs c)) \<and>
    intensities (turned_off (deliver_irqs c)) = replicate (num_leds c) 0 \<and>
    written (turned_off (deliver_irqs c)) = written c @ [replicate (num_leds c) (0, 0, 0)] \<and>
    \<not> abort_requested (state_manager (turned_off (deliver_irqs c))) \<and>
    \<not> charge_requested (state_manager (turned_off (deliver_irqs c))) \<and>
    (\<exists>q'. for_each vals (resonate_frame start) q = Inr q' \<and>
          state_manager q' = state_manager q \<and> irqs q' = irqs q \<and>
          length (written q') = length (written q) + length vals) \<and>
    (\<exists>q'. final_pass q = Inr q' \<and> state_manager q' = state_manager q \<and> irqs q' = irqs q \<and>
          length (written q') = length (written q) + 1) \<and>
    (n < num_leds a * num_times_to_charge + num_steps \<longrightarrow>
       (\<exists>b. charge_cycle a = Inr b \<and> ends_black (frames_until n a) b) \<and>
       length (written (frames_until n a)) = length (written a) + n) \<and>
    (num_leds a * num_times_to_charge + num_steps \<le> n \<and>
     n < num_leds a * num_times_to_charge + num_steps + 5 \<longrightarrow>
       (\<exists>b. charge_cycle a = Inr (clear_charge_requested (deliver_irqs b)) \<and>
            ends_black (frames_until n a) b) \<and>
       length (written (frames_until n a))
         = length (written a) + (num_leds a * num_times_to_charge + num_steps + 1
             + 40 * (n - num_leds a * num_times_to_charge - num_steps)))"
proof -
  let ?off = "turned_off (deliver_irqs c)"
  have r: "refresh_and_check_state c = Inr (False, ?off)"
    using assms(1,2) by (rule refresh_abort)
  have sd: "sized (deliver_irqs c)" using assms(1) by simp
  have cu: "charge_up (k # ks) c = Inr (True, ?off)" for k ks
    by (simp add: r)
  have cc: "charge_cycle c = Inr ?off"
    using assms(1,2,3) by (rule charge_cycle_abort_at_first_poll)
  have rp: "\<exists>q'. for_each vals (resonate_frame start) q = Inr q' \<and>
          state_manager q' = state_manager q \<and> irqs q' = irqs q \<and>
          length (written q') = length (written q) + length vals"
    using resonate_pass_ok [OF assms(4,5,6)]
    by (intro exI [of _ "resonate_pass start vals q"]) (simp add: length_written_resonate_pass)
  have fp: "\<exists>q'. final_pass q = Inr q' \<and> state_manager q' = state_manager q \<and> irqs q' = irqs q \<and>
          length (written q') = length (written q) + 1"
    using final_pass_sized [of q] assms(4) by (simp add: costume_ok_def)
  have old: "refresh_and_check_state c = Inr (False, turned_off (deliver_irqs c)) \<and>
    charge_up (k # ks) c = Inr (True, turned_off (deliver_irqs c)) \<and>
    fade (k # ks) ss c = Inr (True, turned_off (deliver_irqs c)) \<and>
    resonate (k # ks) start vals c = Inr (turned_off (deliver_irqs c)) \<and>
    charge_cycle c = Inr (turned_off (deliver_irqs c)) \<and>
    intensities (turned_off (deliver_irqs c)) = replicate (num_leds c) 0 \<and>
    written (turned_off (deliver_irqs c)) = written c @ [replicate (num_leds c) (0, 0, 0)] \<and>
    \<not> abort_requested (state_manager (turned_off (deliver_irqs c))) \<and>
    \<not> charge_requested (state_manager (turned_off (deliver_irqs c)))"
    using r cu [of k ks] cc turned_off_views(1,2) [OF sd]
    by (simp add: r)
  have A: "n < num_leds a * num_times_to_charge + num_steps \<longrightarrow>
       (\<exists>b. charge_cycle a = Inr b \<and> ends_black (frames_until n a) b) \<and>
       length (written (frames_until n a)) = length (written a) + n"
    using abort_at_any_poll(1) [OF assms(7,8,9)] frames_until_count [of n a] by simp
  have B: "num_leds a * num_times_to_charge + num_steps \<le> n \<and>
     n < num_leds a * num_times_to_charge + num_steps + 5 \<longrightarrow>
       (\<exists>b. charge_cycle a = Inr (clear_charge_requested (deliver_irqs b)) \<and>
            ends_black (frames_until n a) b) \<and>
       length (written (frames_until n a))
         = length (written a) + (num_leds a * num_times_to_charge + num_steps + 1
             + 40 * (n - num_leds a * num_times_to_charge - num_steps))"
    using abort_at_any_poll(2) [OF assms(7,8,9)] frames_until_count [of n a] by simp
  show ?thesis
    using old rp fp A B by (intro conjI) simp_all
qed

theorem abort_at_poll_witness:
  "sized (new_costume [[RisingEdge OffButton]]) \<and>
   abort_requested (state_manager (deliver_irqs (new_costume [[RisingEdge OffButton]]))) \<and>
   0 < num_leds (new_costume [[RisingEdge OffButton]]) \<and>
   costume_ok (new_costume []) \<and> (0::int) \<le> 97 \<and> in_range resonating_values \<and>
   charge_up [0, 1, 2] (new_costume [[RisingEdge OffButton]])
     = Inr (True, turned_off (deliver_irqs (new_costume [[RisingEdge OffButton]]))) \<and>
   fade [3, 4] [] (new_costume [[RisingEdge OffButton]])
     = Inr (True, turned_off (deliver_irqs (new_costume [[RisingEdge OffButton]]))) \<and>
   resonate [4] 97 resonating_values (new_costume [[RisingEdge OffButton]])
     = Inr (turned_off (deliver_irqs (new_costume [[RisingEdge OffButton]]))) \<and>
   charge_cycle (new_costume [[RisingEdge OffButton]])
     = Inr (turned_off (deliver_irqs (new_costume [[RisingEdge OffButton]]))) \<and>
   intensities (turned_off (deliver_irqs (new_costume [[RisingEdge OffButton]])))
     = replicate 144 0 \<and>
   written (turned_off (deliver_irqs (new_costume [[RisingEdge OffButton]])))
     = [replicate 144 (0, 0, 0)] \<and>
   costume_ok (abort_press_in_cycle 13) \<and> 0 < num_leds (abort_press_in_cycle 13) \<and>
   abort_pressed_at 13 (abort_press_in_cycle 13) \<and>
   (\<exists>b. charge_cycle (abort_press_in_cycle 13) = Inr b \<and>
        ends_black (frames_until 13 (abort_press_in_cycle 13)) b) \<and>
   length (written (frames_until 13 (abort_press_in_cycle 13))) = 13 \<and>
   hd (intensities (frames_until 13 (abort_press_in_cycle 13))) = 127 \<and>
   costume_ok (abort_press_in_cycle 290) \<and> 0 < num_leds (abort_press_in_cycle 290) \<and>
   abort_pressed_at 290 (abort_press_in_cycle 290) \<and>
   (\<exists>b. charge_cycle (abort_press_in_cycle 290) = Inr b \<and>
        ends_black (frames_until 290 (abort_press_in_cycle 290)) b) \<and>
   length (written (frames_until 290 (abort_press_in_cycle 290))) = 290 \<and>
   costume_ok (abort_press_in_cycle 309) \<and> 0 < num_leds (abort_press_in_cycle 309) \<and>
   abort_pressed_at 309 (abort_press_in_cycle 309) \<and>
   (\<exists>b. charge_cycle (abort_press_in_cycle 309)
          = Inr (clear_charge_requested (deliver_irqs b)) \<and>
        ends_black (frames_until 309 (abort_press_in_cycle 309)) b) \<and>
   length (written (frames_until 309 (abort_press_in_cycle 309))) = 349"
proof -
  have h: "sized (new_costume [[RisingEdge OffButton]])"
    "abort_requested (state_manager (deliver_irqs (new_costume [[RisingEdge OffButton]])))"
    "0 < num_leds (new_costume [[RisingEdge OffButton]])"
    "costume_ok (new_costume [])" "(0::int) \<le> 97" "in_range resonating_values"
    by (simp_all add: sized_new_costume abort_arrives costume_ok_new_costume
        in_range_resonating_values)
  have n: "num_leds (abort_press_in_cycle m) = 144"
    and w: "length (written (abort_press_in_cycle m)) = 0" for m
    by (simp_all add: abort_press_in_cycle_def)
  note n = n num_times_to_charge_def num_steps_def
  note g = abort_press_in_cycle_ok
  note t1 = abort_at_poll [OF h g [of 13], of 0 "[1, 2]" "[]", unfolded n w]
  note t2 = abort_at_poll [OF h g [of 290], of 3 "[4]" "[]", unfolded n w]
  note t3 = abort_at_poll [OF h g [of 309], of 4 "[]" "[]", unfolded n w]
  have a1: "(\<exists>b. charge_cycle (abort_press_in_cycle 13) = Inr b \<and>
        ends_black (frames_until 13 (abort_press_in_cycle 13)) b) \<and>
     length (written (frames_until 13 (abort_press_in_cycle 13))) = 13"
    using t1 by simp
  have a2: "(\<exists>b. charge_cycle (abort_press_in_cycle 290) = Inr b \<and>
        ends_black (frames_until 290 (abort_press_in_cycle 290)) b) \<and>
     length (written (frames_until 290 (abort_press_in_cycle 290))) = 290"
    using t2 by simp
  have a3: "(\<exists>b. charge_cycle (abort_press_in_cycle 309)
          = Inr (clear_charge_requested (deliver_irqs b)) \<and>
        ends_black (frames_until 309 (abort_press_in_cycle 309)) b) \<and>
     length (written (frames_until 309 (abort_press_in_cycle 309))) = 349"
    using t3 by simp
  have o: "charge_up [0, 1, 2] (new_costume [[RisingEdge OffButton]])
     = Inr (True, turned_off (deliver_irqs (new_costume [[RisingEdge OffButton]])))"
   "fade [3, 4] [] (new_costume [[RisingEdge OffButton]])
     = Inr (True, turned_off (deliver_irqs (new_costume [[RisingEdge OffButton]])))"
   "resonate [4] 97 resonating_values (new_costume [[RisingEdge OffButton]])
     = Inr (turned_off (deliver_irqs (new_costume [[RisingEdge OffButton]])))"
   "charge_cycle (new_costume [[RisingEdge OffButton]])
     = Inr (turned_off (deliver_irqs (new_costume [[RisingEdge OffButton]])))"
   "intensities (turned_off (deliver_irqs (new_costume [[RisingEdge OffButton]])))
     = replicate 144 0"
   "written (turned_off (deliver_irqs (new_costume [[RisingEdge OffButton]])))
     = [replicate 144 (0, 0, 0)]"
    using t1 t2 t3 by simp_all
  show ?thesis
    using h g [of 13] g [of 290] g [of 309] o a1 a2 a3 frame_before_abort_13
    by (intro conjI) simp_all
qed

text \<open>
  The claim as stated fails in the resonate phase: an abort request raised during the poll
  of a repetition, after the poll's check of the flag, stays pending while all 40 frames of
  the table are flushed, and is only found by the poll of the next repetition.
\<close>

theorem resonate_polls_once_per_repetition:
  "refresh_and_check_state abort_while_resonating
     = Inr (True, dismiss_abort (deliver_irqs (deliver_irqs abort_while_resonating))) \<and>
   abort_requested (state_manager (dismiss_abort (deliver_irqs (deliver_irqs abort_while_resonating)))) \<and>
   for_each resonating_values (resonate_frame 97)
       (dismiss_abort (deliver_irqs (deliver_irqs abort_while_resonating)))
     = Inr (resonate_pass 97 resonating_values
              (dismiss_abort (deliver_irqs (deliver_irqs abort_while_resonating)))) \<and>
   length (written (resonate_pass 97 resonating_values
              (dismiss_abort (deliver_irqs (deliver_irqs abort_while_resonating))))) = 40 \<and>
   resonate [0..<5] 97 resonating_values abort_while_resonating
     = Inr (turned_off (deliver_irqs (resonate_pass 97 resonating_values
              (dismiss_abort (deliver_irqs (deliver_irqs abort_while_resonating)))))) \<and>
   length (written (turned_off (deliver_irqs (resonate_pass 97 resonating_values
              (dismiss_abort (deliver_irqs (deliver_irqs abort_while_resonating))))))) = 41"
proof -
  let ?c0 = "abort_while_resonating"
  let ?c1 = "dismiss_abort (deliver_irqs (deliver_irqs ?c0))"
  let ?c2 = "resonate_pass 97 resonating_values ?c1"
  have d0: "state_manager (deliver_irqs ?c0) = new_state_manager"
    by (simp add: abort_while_resonating_def state_manager_deliver_irqs)
  have i0: "irqs (deliver_irqs ?c0) = [[RisingEdge OffButton]]"
    by (simp add: abort_while_resonating_def)
  have d1: "state_manager (deliver_irqs (deliver_irqs ?c0))
      = new_state_manager\<lparr>off_button_irq := False, abort_requested := True,
                            timer := Some OffButton\<rparr>"
    by (simp add: state_manager_deliver_irqs abort_while_resonating_def
        handler_should_abort_def)
  have s1: "state_manager ?c1 = state_manager (deliver_irqs (deliver_irqs ?c0))"
    by (simp add: dismiss_abort_def d1)
  have ok0: "costume_ok ?c0" by (simp add: abort_while_resonating_def costume_ok_new_costume)
  have ok1: "costume_ok ?c1" using ok0 by simp
  have r1: "refresh_and_check_state ?c0 = Inr (True, ?c1)"
    by (intro refresh_plain) (simp_all add: d0)
  have a1: "abort_requested (state_manager ?c1)"
    by (simp add: s1 d1)
  have rp: "for_each resonating_values (resonate_frame 97) ?c1 = Inr ?c2" and ok2: "costume_ok ?c2"
    using resonate_pass_ok [OF ok1 _ in_range_resonating_values, of 97] by simp_all
  have w0: "written ?c0 = []"
    by (simp add: abort_while_resonating_def)
  have l40: "length resonating_values = 40"
    by (simp add: resonating_values_def resonating_value_modifiers_def)
  have w2: "length (written ?c2) = 40"
    by (simp add: length_written_resonate_pass w0 l40)
  have a2: "abort_requested (state_manager (deliver_irqs ?c2))"
    using a1 by (simp add: state_manager_deliver_irqs abort_while_resonating_def)
  have sz2: "sized ?c2" using ok2 by (simp add: costume_ok_def)
  have r2: "refresh_and_check_state ?c2 = Inr (False, turned_off (deliver_irqs ?c2))"
    using sz2 a2 by (rule refresh_abort)
  have "[0..<5] = [0, 1, 2, 3, 4]" by (simp add: upt_rec)
  then have rs: "resonate [0..<5] 97 resonating_values ?c0 = Inr (turned_off (deliver_irqs ?c2))"
    by (simp add: r1 rp r2)
  have sd2: "sized (deliver_irqs ?c2)" using sz2 by simp
  have w3: "length (written (turned_off (deliver_irqs ?c2))) = 41"
    using turned_off_views(2) [OF sd2] w2 by simp
  show ?thesis
    using r1 a1 rp w2 rs w3 by simp
qed

text \<open>
  C8. A poll that finds the charge request set while a cycle runs (no abort and no toggle
  request found before) neither clears it nor restarts anything: it returns \<open>True\<close>, leaves
  the charge request set, the pixels, the strip, the output and the mode as they were, and
  its one write is \<open>abort_requested = False\<close>. The charge request is cleared where the
  cycle ends: every cycle of a well-formed costume ends (whatever the hardware events)
  with the request clear, and so does every iteration of the main loop, so that a press
  made during a cycle starts no cycle of its own.
\<close>

theorem charge_request_during_cycle:
  assumes "\<not> abort_requested (state_manager (deliver_irqs c))"
    and "\<not> toggle_good_evil_requested (state_manager (deliver_irqs c))"
    and "charge_requested (state_manager (deliver_irqs (deliver_irqs c)))"
    and "costume_ok a" and "0 < num_leds a"
  shows
   "refresh_and_check_state c
      = Inr (True, (deliver_irqs (deliver_irqs c))
                     \<lparr>state_manager := (state_manager (deliver_irqs (deliver_irqs c)))
                                          \<lparr>abort_requested := False\<rparr>\<rparr>) \<and>
    (\<exists>c'. refresh_and_check_state c = Inr (True, c') \<and>
        charge_requested (state_manager c') \<and> \<not> abort_requested (state_manager c') \<and>
        toggle_good_evil_requested (state_manager c')
          = toggle_good_evil_requested (state_manager (deliver_irqs (deliver_irqs c))) \<and>
        evil (state_manager c') = evil (state_manager c) \<and>
        pixels c' = pixels c \<and> strip c' = strip c \<and> written c' = written c) \<and>
    (\<exists>a'. charge_cycle a = Inr a' \<and> \<not> charge_requested (state_manager a')) \<and>
    \<not> charge_requested (state_manager (main_loop_iteration a))"
proof -
  let ?d = "deliver_irqs (deliver_irqs c)"
  let ?c' = "?d\<lparr>state_manager := (state_manager ?d)\<lparr>abort_requested := False\<rparr>\<rparr>"
  have "dismiss_abort ?d = ?c'"
    using assms(3) by (simp add: dismiss_abort_def)
  then have r: "refresh_and_check_state c = Inr (True, ?c')"
    using refresh_plain [OF assms(1,2)] by simp
  have B: "\<exists>c'. refresh_and_check_state c = Inr (True, c') \<and>
        charge_requested (state_manager c') \<and> \<not> abort_requested (state_manager c') \<and>
        toggle_good_evil_requested (state_manager c')
          = toggle_good_evil_requested (state_manager (deliver_irqs (deliver_irqs c))) \<and>
        evil (state_manager c') = evil (state_manager c) \<and>
        pixels c' = pixels c \<and> strip c' = strip c \<and> written c' = written c"
    using r assms(3) by (intro exI [of _ ?c']) simp
  have "alike a a" using assms(4) by (simp add: alike_def)
  then have C: "\<exists>a'. charge_cycle a = Inr a' \<and> \<not> charge_requested (state_manager a')"
    using charge_cycle_alike [OF _ assms(5), of a] by blast
  show ?thesis
    using r B C main_loop_iteration_charge_cleared [OF assms(4,5)] by blast
qed

theorem charge_request_during_cycle_witness:
  "\<not> abort_requested (state_manager (deliver_irqs charge_then_abort)) \<and>
   \<not> toggle_good_evil_requested (state_manager (deliver_irqs charge_then_abort)) \<and>
   charge_requested (state_manager (deliver_irqs (deliver_irqs charge_then_abort))) \<and>
   costume_ok charge_then_abort \<and> 0 < num_leds charge_then_abort \<and>
   refresh_and_check_state charge_then_abort
      = Inr (True, (deliver_irqs (deliver_irqs charge_then_abort))
                     \<lparr>state_manager :=
                        (state_manager (deliver_irqs (deliver_irqs charge_then_abort)))
                          \<lparr>abort_requested := False\<rparr>\<rparr>) \<and>
   (\<exists>a'. charge_cycle charge_then_abort = Inr a' \<and> \<not> charge_requested (state_manager a')) \<and>
   \<not> charge_requested (state_manager (main_loop_iteration charge_then_abort))"
proof -
  have ok: "costume_ok charge_then_abort"
    using costume_ok_new_costume [of "[[], [RisingEdge OffButton]]"]
      display_eqD(9) [of charge_then_abort "new_costume [[], [RisingEdge OffButton]]"]
    by (simp add: charge_then_abort_def display_def)
  have h: "\<not> abort_requested (state_manager (deliver_irqs charge_then_abort))"
    "\<not> toggle_good_evil_requested (state_manager (deliver_irqs charge_then_abort))"
    "charge_requested (state_manager (deliver_irqs (deliver_irqs charge_then_abort)))"
    "costume_ok charge_then_abort" "0 < num_leds charge_then_abort"
    using ok
    by (simp_all add: charge_then_abort_def state_manager_deliver_irqs handler_should_abort_def)
  show ?thesis
    using h charge_request_during_cycle [OF h] by blast
qed

text \<open>
  The claim as stated fails at the poll: with the charge request set, an abort request that
  is raised after the poll's abort check is cleared by the poll (another flag changes), and
  the charge request itself is still set when the poll returns.
\<close>

theorem charge_request_dismisses_abort:
  "refresh_and_check_state charge_then_abort
     = Inr (True, dismiss_abort (deliver_irqs (deliver_irqs charge_then_abort))) \<and>
   abort_requested (state_manager (deliver_irqs (deliver_irqs charge_then_abort))) \<and>
   \<not> abort_requested (state_manager (dismiss_abort (deliver_irqs (deliver_irqs charge_then_abort)))) \<and>
   charge_requested (state_manager (dismiss_abort (deliver_irqs (deliver_irqs charge_then_abort))))"
proof -
  have d1: "state_manager (deliver_irqs charge_then_abort)
      = new_state_manager\<lparr>charge_requested := True\<rparr>"
    by (simp add: charge_then_abort_def state_manager_deliver_irqs)
  have d2: "state_manager (deliver_irqs (deliver_irqs charge_then_abort))
      = new_state_manager\<lparr>charge_requested := True, off_button_irq := False,
          abort_requested := True, timer := Some OffButton\<rparr>"
    by (simp add: charge_then_abort_def state_manager_deliver_irqs handler_should_abort_def)
  have r: "refresh_and_check_state charge_then_abort
     = Inr (True, dismiss_abort (deliver_irqs (deliver_irqs charge_then_abort)))"
    by (intro refresh_plain) (simp_all add: d1)
  show ?thesis
    using r by (simp add: dismiss_abort_def d2)
qed

text \<open>
  C10. An iteration of the main loop that finds no charge request does nothing but print
  and sleep: the pixels, the strip, the output and the mode stay as they are, and a toggle
  or abort request that is set stays set. So a toggle request pending while no charge
  button press arrives stays pending through any number of iterations, with no mode flip,
  no recolouring and no frame. An iteration that finds a charge request and a pending
  abort request starts a cycle whose first poll takes the abort: all intensities are 0,
  the one frame flushed is the black frame, and both requests are clear afterwards.
\<close>

theorem idle_reads_only_charge_requested:
  assumes "\<not> charge_requested (state_manager (deliver_irqs c))"
    and "\<not> charge_requested (state_manager i)"
    and "toggle_good_evil_requested (state_manager i)"
    and "list_all no_charge_press (take n (irqs i))"
    and "sized p" and "0 < num_leds p"
    and "charge_requested (state_manager (deliver_irqs p))"
    and "abort_requested (state_manager (deliver_irqs p))"
  shows
   "main_loop_iteration c =
      print_line (InMainLoop False
        (toggle_good_evil_requested (state_manager (deliver_irqs c)))
        (abort_requested (state_manager (deliver_irqs c)))) (deliver_irqs c) \<and>
    pixels (main_loop_iteration c) = pixels c \<and> strip (main_loop_iteration c) = strip c \<and>
    written (main_loop_iteration c) = written c \<and>
    evil (state_manager (main_loop_iteration c)) = evil (state_manager c) \<and>
    toggle_good_evil_requested (state_manager (main_loop_iteration c))
      = toggle_good_evil_requested (state_manager (deliver_irqs c)) \<and>
    abort_requested (state_manager (main_loop_iteration c))
      = abort_requested (state_manager (deliver_irqs c)) \<and>
    pixels (run_main_loop n i) = pixels i \<and> strip (run_main_loop n i) = strip i \<and>
    written (run_main_loop n i) = written i \<and>
    evil (state_manager (run_main_loop n i)) = evil (state_manager i) \<and>
    toggle_good_evil_requested (state_manager (run_main_loop n i)) \<and>
    main_loop_iteration p =
      turned_off (deliver_irqs (clear_charge_requested
        (print_line (InMainLoop True
           (toggle_good_evil_requested (state_manager (deliver_irqs p))) True)
           (deliver_irqs p)))) \<and>
    intensities (main_loop_iteration p) = replicate (num_leds p) 0 \<and>
    written (main_loop_iteration p) = written p @ [replicate (num_leds p) (0, 0, 0)] \<and>
    \<not> abort_requested (state_manager (main_loop_iteration p)) \<and>
    \<not> charge_requested (state_manager (main_loop_iteration p))"
proof -
  have A: "main_loop_iteration c =
      print_line (InMainLoop False
        (toggle_good_evil_requested (state_manager (deliver_irqs c)))
        (abort_requested (state_manager (deliver_irqs c)))) (deliver_irqs c)"
    using assms(1) by (rule main_loop_iteration_idle)
  have B: "display (run_main_loop n i) = display i"
    "toggle_good_evil_requested (state_manager (run_main_loop n i))"
    using run_main_loop_idle [OF assms(2,3,4)] by simp_all
  define l where "l = InMainLoop True
           (toggle_good_evil_requested (state_manager (deliver_irqs p))) True"
  let ?p1 = "clear_charge_requested (print_line l (deliver_irqs p))"
  have sz: "sized ?p1" "0 < num_leds ?p1"
    using assms(5,6) by (simp_all add: sized_def clear_charge_requested_def)
  have "abort_requested (state_manager ?p1)"
    using assms(8) by (simp add: clear_charge_requested_def)
  then have ab: "abort_requested (state_manager (deliver_irqs ?p1))"
    by (rule deliver_irqs_keeps_requests)
  have cc: "charge_cycle ?p1 = Inr (turned_off (deliver_irqs ?p1))"
    using sz(1) ab sz(2) by (rule charge_cycle_abort_at_first_poll)
  have C: "main_loop_iteration p = turned_off (deliver_irqs ?p1)"
    using assms(7,8) by (simp add: main_loop_iteration_def Let_def l_def [symmetric] cc)
  have sd: "sized (deliver_irqs ?p1)" using sz(1) by simp
  have n1: "num_leds (deliver_irqs ?p1) = num_leds p" and w1: "written (deliver_irqs ?p1) = written p"
    by (simp_all add: clear_charge_requested_def)
  show ?thesis
    using A display_eqD(2,5,6,7) [OF B(1)] B(2) C turned_off_views(1,2) [OF sd] n1 w1
    by (simp add: l_def)
qed

theorem idle_reads_only_charge_requested_witness:
  "\<not> charge_requested (state_manager (deliver_irqs (new_costume [[RisingEdge GoodEvilButton]]))) \<and>
   \<not> charge_requested (state_manager
        (toggle_requested (new_costume [[RisingEdge OffButton], [TimerExpiry]]))) \<and>
   toggle_good_evil_requested (state_manager
        (toggle_requested (new_costume [[RisingEdge OffButton], [TimerExpiry]]))) \<and>
   list_all no_charge_press
     (take 2 (irqs (toggle_requested (new_costume [[RisingEdge OffButton], [TimerExpiry]])))) \<and>
   sized (new_costume [[RisingEdge OffButton, RisingEdge ChargeButton]]) \<and>
   0 < num_leds (new_costume [[RisingEdge OffButton, RisingEdge ChargeButton]]) \<and>
   charge_requested (state_manager
        (deliver_irqs (new_costume [[RisingEdge OffButton, RisingEdge ChargeButton]]))) \<and>
   abort_requested (state_manager
        (deliver_irqs (new_costume [[RisingEdge OffButton, RisingEdge ChargeButton]]))) \<and>
   written (main_loop_iteration (new_costume [[RisingEdge GoodEvilButton]]))
     = written (new_costume [[RisingEdge GoodEvilButton]]) \<and>
   evil (state_manager (main_loop_iteration (new_costume [[RisingEdge GoodEvilButton]])))
     = evil (state_manager (new_costume [[RisingEdge GoodEvilButton]])) \<and>
   toggle_good_evil_requested
       (state_manager (main_loop_iteration (new_costume [[RisingEdge GoodEvilButton]])))
     = toggle_good_evil_requested
         (state_manager (deliver_irqs (new_costume [[RisingEdge GoodEvilButton]]))) \<and>
   toggle_good_evil_requested
       (state_manager (deliver_irqs (new_costume [[RisingEdge GoodEvilButton]]))) \<and>
   written (run_main_loop 2
        (toggle_requested (new_costume [[RisingEdge OffButton], [TimerExpiry]])))
     = written (toggle_requested (new_costume [[RisingEdge OffButton], [TimerExpiry]])) \<and>
   evil (state_manager (run_main_loop 2
        (toggle_requested (new_costume [[RisingEdge OffButton], [TimerExpiry]]))))
     = evil (state_manager (toggle_requested (new_costume [[RisingEdge OffButton], [TimerExpiry]]))) \<and>
   toggle_good_evil_requested (state_manager (run_main_loop 2
      (toggle_requested (new_costume [[RisingEdge OffButton], [TimerExpiry]])))) \<and>
   intensities (main_loop_iteration (new_costume [[RisingEdge OffButton, RisingEdge ChargeButton]]))
     = replicate (num_leds (new_costume [[RisingEdge OffButton, RisingEdge ChargeButton]])) 0 \<and>
   written (main_loop_iteration (new_costume [[RisingEdge OffButton, RisingEdge ChargeButton]]))
     = written (new_costume [[RisingEdge OffButton, RisingEdge ChargeButton]])
       @ [replicate (num_leds (new_costume [[RisingEdge OffButton, RisingEdge ChargeButton]]))
            (0, 0, 0)] \<and>
   \<not> abort_requested (state_manager
        (main_loop_iteration (new_costume [[RisingEdge OffButton, RisingEdge ChargeButton]]))) \<and>
   \<not> charge_requested (state_manager
        (main_loop_iteration (new_costume [[RisingEdge OffButton, RisingEdge ChargeButton]])))"
proof -
  have t: "state_manager (deliver_irqs (new_costume [[RisingEdge GoodEvilButton]]))
      = new_state_manager\<lparr>good_evil_button_irq := False, toggle_good_evil_requested := True,
          timer := Some GoodEvilButton\<rparr>"
    by (simp add: state_manager_deliver_irqs handler_trigger_good_evil_def)
  have q: "state_manager (deliver_irqs (new_costume [[RisingEdge OffButton, RisingEdge ChargeButton]]))
      = new_state_manager\<lparr>off_button_irq := False, abort_requested := True,
          charge_button_irq := False, charge_requested := True,
          timer := Some ChargeButton\<rparr>"
    by (simp add: state_manager_deliver_irqs handler_should_abort_def handler_charge_def)
  have h: "\<not> charge_requested (state_manager (deliver_irqs (new_costume [[RisingEdge GoodEvilButton]])))"
    "\<not> charge_requested (state_manager
        (toggle_requested (new_costume [[RisingEdge OffButton], [TimerExpiry]])))"
    "toggle_good_evil_requested (state_manager
        (toggle_requested (new_costume [[RisingEdge OffButton], [TimerExpiry]])))"
    "list_all no_charge_press
       (take 2 (irqs (toggle_requested (new_costume [[RisingEdge OffButton], [TimerExpiry]]))))"
    "sized (new_costume [[RisingEdge OffButton, RisingEdge ChargeButton]])"
    "0 < num_leds (new_costume [[RisingEdge OffButton, RisingEdge ChargeButton]])"
    "charge_requested (state_manager
        (deliver_irqs (new_costume [[RisingEdge OffButton, RisingEdge ChargeButton]])))"
    "abort_requested (state_manager
        (deliver_irqs (new_costume [[RisingEdge OffButton, RisingEdge ChargeButton]])))"
    by (simp_all add: t q sized_new_costume no_charge_press_def toggle_requested_def)
  have g: "toggle_good_evil_requested
       (state_manager (deliver_irqs (new_costume [[RisingEdge GoodEvilButton]])))"
    by (simp add: t)
  show ?thesis
    using h g idle_reads_only_charge_requested [OF h] by blast
qed

end
